theory Spec2Isabelle
  imports Complex_Main "HOL-Library.Word" "HOL-Library.Multiset"
    "HOL-Library.List_Lexorder" "HOL-Library.Product_Lexorder"
begin

section \<open>Timestamps (timestamp.h, timestamp.c)\<close>

text \<open>
  A \<^verbatim>\<open>Timestamp\<close> is a struct of five C \<^verbatim>\<open>int\<close> fields. The functions modelled here only
  copy and compare them, so no arithmetic can overflow and the fields are kept as
  mathematical integers.
\<close>

record Timestamp =
  day :: int
  month :: int
  year :: int
  hour :: int
  minute :: int

definition INITIAL_TIMESTAMP :: Timestamp where
  "INITIAL_TIMESTAMP = \<lparr>day = 0, month = 0, year = 0, hour = 0, minute = 0\<rparr>"

definition compareDate :: "Timestamp \<Rightarrow> Timestamp \<Rightarrow> int" where
  "compareDate t1 t2 =
     (if year t1 \<noteq> year t2 then (if year t1 < year t2 then -1 else 1)
      else if month t1 \<noteq> month t2 then (if month t1 < month t2 then -1 else 1)
      else if day t1 \<noteq> day t2 then (if day t1 < day t2 then -1 else 1)
      else 0)"

definition compareTimestamps :: "Timestamp \<Rightarrow> Timestamp \<Rightarrow> int" where
  "compareTimestamps t1 t2 =
     (let dateComparison = compareDate t1 t2 in
      if dateComparison \<noteq> 0 then dateComparison
      else if hour t1 \<noteq> hour t2 then (if hour t1 < hour t2 then -1 else 1)
      else if minute t1 \<noteq> minute t2 then (if minute t1 < minute t2 then -1 else 1)
      else 0)"

definition isInitialTimestamp :: "Timestamp \<Rightarrow> bool" where
  "isInitialTimestamp t \<longleftrightarrow> compareTimestamps t INITIAL_TIMESTAMP = 0"

section \<open>Logs (log.h, log.c)\<close>

text \<open>
  A \<^verbatim>\<open>Log\<close> node carries a plate, a park name, two timestamps and a \<^verbatim>\<open>next\<close> pointer.
  A chain of nodes linked through \<^verbatim>\<open>next\<close> and ended by \<^verbatim>\<open>NULL\<close> is a list of the
  nodes' payloads; a \<^verbatim>\<open>Log*\<close> is the list that starts at the node it points to, and
  \<^verbatim>\<open>NULL\<close> is the empty list. C strings are lists of characters without the
  terminating zero.
\<close>

record Log =
  plate :: string
  parkName :: string
  entryTimestamp :: Timestamp
  exitTimestamp :: Timestamp

definition newLog :: "string \<Rightarrow> string \<Rightarrow> Log" where
  "newLog p name =
     \<lparr>plate = p, parkName = name,
      entryTimestamp = INITIAL_TIMESTAMP, exitTimestamp = INITIAL_TIMESTAMP\<rparr>"

text \<open>
  The library function \<^verbatim>\<open>strcmp\<close>: the sign of the difference of the first pair of
  bytes (read as unsigned) that differ; a proper prefix is smaller.
\<close>

fun strcmp :: "string \<Rightarrow> string \<Rightarrow> int" where
  "strcmp [] [] = 0"
| "strcmp [] (y # ys) = -1"
| "strcmp (x # xs) [] = 1"
| "strcmp (x # xs) (y # ys) =
     (if (of_char x :: nat) < of_char y then -1
      else if (of_char y :: nat) < of_char x then 1
      else strcmp xs ys)"

text \<open>
  \<^verbatim>\<open>merge\<close> (log.c, lines 256--286). Whatever \<^verbatim>\<open>sortBy\<close> is, the branch condition
  looks at the park names first; \<^verbatim>\<open>sortBy\<close> only selects which timestamp breaks a tie
  between equal park names.
\<close>

fun merge :: "Log list \<Rightarrow> Log list \<Rightarrow> char \<Rightarrow> Log list" where
  "merge [] list2 sortBy = list2"
| "merge (a # list1) [] sortBy = a # list1"
| "merge (a # list1) (b # list2) sortBy =
     (let parkNameCmp = strcmp (parkName a) (parkName b);
          timestampComparison =
            (if sortBy = CHR ''e''
             then compareTimestamps (entryTimestamp a) (entryTimestamp b) = -1
             else compareTimestamps (exitTimestamp a) (exitTimestamp b) = -1)
      in if parkNameCmp < 0 \<or> (parkNameCmp = 0 \<and> timestampComparison)
         then a # merge list1 (b # list2) sortBy
         else b # merge (a # list1) list2 sortBy)"

text \<open>
  \<^verbatim>\<open>split\<close> (log.c, lines 299--314). \<open>slowSteps fast\<close> counts how often the loop
  advances \<^verbatim>\<open>slow\<close> when it starts with the given \<^verbatim>\<open>fast\<close> pointer. The first half
  is the chain up to and including \<^verbatim>\<open>slow\<close>. The function dereferences \<^verbatim>\<open>head\<close>, so
  it is only defined on a non-empty chain; \<^verbatim>\<open>mergeSort\<close> never calls it otherwise.
\<close>

fun slowSteps :: "Log list \<Rightarrow> nat" where
  "slowSteps [] = 0"
| "slowSteps [f] = 0"
| "slowSteps (f # g # fast) = Suc (slowSteps fast)"

fun split :: "Log list \<Rightarrow> Log list \<times> Log list" where
  "split (h # rest) =
     (let slow = slowSteps rest
      in (take (Suc slow) (h # rest), drop (Suc slow) (h # rest)))"

function mergeSort :: "Log list \<Rightarrow> char \<Rightarrow> Log list" where
  "mergeSort [] sortBy = []"
| "mergeSort [x] sortBy = [x]"
| "mergeSort (x # y # zs) sortBy =
     merge (mergeSort (fst (split (x # y # zs))) sortBy)
           (mergeSort (snd (split (x # y # zs))) sortBy) sortBy"
  by pat_completeness auto
termination
proof (relation "measure (\<lambda>(head, sortBy). length head)", goal_cases)
  case 1
  show ?case by simp
next
  case (2 x y zs sortBy)
  have "slowSteps fast \<le> length fast div 2" for fast
    by (induction fast rule: slowSteps.induct) auto
  from this [of "y # zs"] show ?case by (simp add: Let_def)
next
  case (3 x y zs sortBy)
  show ?case by (simp add: Let_def)
qed

section \<open>Prime search (hashtable.c, lines 149--183)\<close>

text \<open>
  \<^verbatim>\<open>unsigned int\<close> is a 32-bit word: sums and products wrap around. The loop of
  \<^verbatim>\<open>isPrime\<close> and the \<^verbatim>\<open>while (1)\<close> of \<^verbatim>\<open>nearestPrime\<close> have no bound of their
  own, so both are partial functions: \<open>None\<close> is a call that never returns. The
  divisors \<open>i\<close> and \<open>i + 2\<close> are odd in every iteration, hence never zero.
\<close>

type_synonym u32 = "32 word"

partial_function (option) isPrime_loop :: "u32 \<Rightarrow> u32 \<Rightarrow> bool option" where
  "isPrime_loop num i =
     (if i * i \<le> num
      then (if num mod i = 0 \<or> num mod (i + 2) = 0 then Some False
            else isPrime_loop num (i + 6))
      else Some True)"

declare isPrime_loop.simps [code]

definition isPrime :: "u32 \<Rightarrow> bool option" where
  "isPrime num =
     (if num \<le> 1 then Some False
      else if num \<le> 3 then Some True
      else if num mod 2 = 0 \<or> num mod 3 = 0 then Some False
      else isPrime_loop num 5)"

partial_function (option) nearestPrime_loop :: "u32 \<Rightarrow> u32 option" where
  "nearestPrime_loop n =
     (case isPrime n of
        None \<Rightarrow> None
      | Some b \<Rightarrow> if b then Some n else nearestPrime_loop (n + 2))"

declare nearestPrime_loop.simps [code]

definition nearestPrime :: "u32 \<Rightarrow> u32 option" where
  "nearestPrime n =
     (if n \<le> 1 then Some 2
      else nearestPrime_loop (if n mod 2 = 0 then n + 1 else n))"

section \<open>The hash table (hashtable.h, hashtable.c)\<close>

text \<open>
  \<^verbatim>\<open>plateHash\<close>: djb2 over the characters of the plate, skipping hyphens, in wrapping
  32-bit arithmetic; \<open>(hash << 5) + hash\<close> is \<open>push_bit 5 hash + hash\<close>. Plates are
  ASCII (\<^verbatim>\<open>validPlate\<close> admits digits, capital letters and hyphens), so a character
  contributes its code. The remainder is taken by \<open>size\<close>, which is never zero in a
  table built by \<^verbatim>\<open>newHashtable\<close> and \<^verbatim>\<open>resizeHashtable\<close>.
\<close>

fun djb2 :: "string \<Rightarrow> u32 \<Rightarrow> u32" where
  "djb2 [] hash = hash"
| "djb2 (c # ptr) hash =
     djb2 ptr (if c \<noteq> CHR ''-'' then (push_bit 5 hash + hash) + of_nat (of_char c) else hash)"

definition DJB2_CONSTANT :: u32 where
  "DJB2_CONSTANT = 5381"

definition plateHash :: "string \<Rightarrow> u32 \<Rightarrow> u32" where
  "plateHash plt sz = djb2 plt DJB2_CONSTANT mod sz"

text \<open>
  The table: the array \<^verbatim>\<open>logs\<close> of chain heads, its length \<^verbatim>\<open>size\<close> and the counter
  \<^verbatim>\<open>numElements\<close>. A read or write of \<^verbatim>\<open>logs[k]\<close> outside the allocated array is a
  memory fault; functions that touch the array return \<open>None\<close> for a call that faults
  or does not return, and \<open>Some\<close> of their result otherwise.
\<close>

record Hashtable =
  logs :: "Log list list"
  size_ht :: u32
  numElements :: u32

definition INITIAL_SIZE :: u32 where
  "INITIAL_SIZE = 53"

definition LOAD_FACTOR_THRESHOLD :: real where
  "LOAD_FACTOR_THRESHOLD = 0.75"

definition newHashtable :: Hashtable where
  "newHashtable =
     \<lparr>logs = replicate (unat INITIAL_SIZE) [], size_ht = INITIAL_SIZE, numElements = 0\<rparr>"

text \<open>\<^verbatim>\<open>getSize\<close> returns the unsigned field as a C \<^verbatim>\<open>int\<close>.\<close>

definition getSize :: "Hashtable \<Rightarrow> int" where
  "getSize ht = sint (size_ht ht)"

text \<open>
  \<^verbatim>\<open>getLogAtIndex\<close> (lines 89--94); the table pointer may be \<^verbatim>\<open>NULL\<close>, which is
  \<open>None\<close> in the first argument. The result \<open>Some []\<close> is the \<^verbatim>\<open>NULL\<close> it returns.
\<close>

definition getLogAtIndex :: "Hashtable option \<Rightarrow> u32 \<Rightarrow> Log list option" where
  "getLogAtIndex ht index =
     (case ht of
        None \<Rightarrow> Some []
      | Some h \<Rightarrow>
          if size_ht h \<le> index then Some []
          else if unat index < length (logs h) then Some (logs h ! unat index)
          else None)"

text \<open>\<^verbatim>\<open>getPlateLastLogWithoutExit\<close> (lines 106--122) and its \<^verbatim>\<open>while\<close> loop.\<close>

fun lastLogWithoutExit_loop :: "Log list \<Rightarrow> string \<Rightarrow> Log list" where
  "lastLogWithoutExit_loop [] plt = []"
| "lastLogWithoutExit_loop (currentLog # next) plt =
     (if strcmp (plate currentLog) plt = 0 \<and> isInitialTimestamp (exitTimestamp currentLog)
      then currentLog # next
      else lastLogWithoutExit_loop next plt)"

definition getPlateLastLogWithoutExit :: "Hashtable \<Rightarrow> string \<Rightarrow> Log list option" where
  "getPlateLastLogWithoutExit ht plt =
     (case getLogAtIndex (Some ht) (plateHash plt (word_of_int (getSize ht))) of
        None \<Rightarrow> None
      | Some currentLog \<Rightarrow> Some (lastLogWithoutExit_loop currentLog plt))"

text \<open>
  \<^verbatim>\<open>resizeHashtable\<close> (lines 194--218). \<open>rehashChain\<close> is the inner \<^verbatim>\<open>while\<close> loop,
  which pushes each node of a source chain on the front of its new bucket;
  \<open>rehashAll\<close> is the outer \<^verbatim>\<open>for\<close> loop over the old buckets.
\<close>

fun rehashChain :: "Log list \<Rightarrow> u32 \<Rightarrow> Log list list \<Rightarrow> Log list list option" where
  "rehashChain [] newSize newLogs = Some newLogs"
| "rehashChain (lg # nextLog) newSize newLogs =
     (let newIndex = plateHash (plate lg) newSize
      in if unat newIndex < length newLogs
         then rehashChain nextLog newSize
                (newLogs[unat newIndex := lg # newLogs ! unat newIndex])
         else None)"

function rehashAll :: "Hashtable \<Rightarrow> u32 \<Rightarrow> u32 \<Rightarrow> Log list list \<Rightarrow> Log list list option" where
  "rehashAll ht i newSize newLogs =
     (if i < size_ht ht
      then (case getLogAtIndex (Some ht) i of
              None \<Rightarrow> None
            | Some lg \<Rightarrow>
                (case rehashChain lg newSize newLogs of
                   None \<Rightarrow> None
                 | Some newLogs' \<Rightarrow> rehashAll ht (i + 1) newSize newLogs'))
      else Some newLogs)"
  by pat_completeness auto
termination
proof (relation "measure (\<lambda>(ht, i, newSize, newLogs). unat (size_ht ht) - unat i)", goal_cases)
  case 1
  show ?case by simp
next
  case (2 ht i newSize newLogs lg newLogs')
  from \<open>i < size_ht ht\<close> have "unat i < unat (size_ht ht)"
    by (simp add: word_less_nat_alt)
  moreover have "unat (size_ht ht) < 2 ^ LENGTH(32)"
    by (rule unsigned_less)
  ultimately have "unat i + unat (1 :: u32) < 2 ^ LENGTH(32)"
    by simp
  then have "unat (i + 1) = unat i + 1"
    by (simp add: unat_add_lem [THEN iffD1])
  with \<open>unat i < unat (size_ht ht)\<close> show ?case by simp
qed

declare rehashAll.simps [simp del]

definition resizeHashtable :: "Hashtable \<Rightarrow> Hashtable option" where
  "resizeHashtable ht =
     (case nearestPrime (size_ht ht * 2 + 1) of
        None \<Rightarrow> None
      | Some newSize \<Rightarrow>
          (case rehashAll ht 0 newSize (replicate (unat newSize) []) of
             None \<Rightarrow> None
           | Some newLogs \<Rightarrow> Some (ht\<lparr>logs := newLogs, size_ht := newSize\<rparr>)))"

text \<open>
  \<^verbatim>\<open>addLogToTable\<close> (lines 244--268). The node handed in is a fresh one
  (\<^verbatim>\<open>next == NULL\<close>, as \<^verbatim>\<open>newLog\<close> makes it). Writing \<^verbatim>\<open>currentLog->next = log\<close> at
  the last node of the chain makes the chain of that bucket one node longer. The test
  \<^verbatim>\<open>(double)ht->numElements / getSize(ht) > 0.75\<close> divides two integers below \<open>2^32\<close>;
  a quotient above \<open>3/4\<close> is above it by more than \<open>2^-34\<close>, so rounding to a double
  never changes the outcome, and the test is the exact comparison of the quotient
  with \<open>3/4\<close>.
\<close>

definition loadExceeded :: "Hashtable \<Rightarrow> bool" where
  "loadExceeded ht \<longleftrightarrow>
     real (unat (numElements ht)) / real_of_int (getSize ht) > LOAD_FACTOR_THRESHOLD"

definition addLogToTable :: "Hashtable \<Rightarrow> Log \<Rightarrow> Hashtable option" where
  "addLogToTable ht0 lg =
     (let ht = ht0\<lparr>numElements := numElements ht0 + 1\<rparr>;
          index = plateHash (plate lg) (word_of_int (getSize ht))
      in case getLogAtIndex (Some ht) index of
           None \<Rightarrow> None
         | Some currentLog \<Rightarrow>
             if currentLog = []
             then (if unat index < length (logs ht)
                   then Some (ht\<lparr>logs := (logs ht)[unat index := [lg]]\<rparr>)
                   else None)
             else (let ht' = ht\<lparr>logs := (logs ht)[unat index := currentLog @ [lg]]\<rparr>
                   in if loadExceeded ht' then resizeHashtable ht' else Some ht'))"

text \<open>A sequence of inserts: \<^verbatim>\<open>addLogToTable\<close> called for each log in turn.\<close>

fun addLogsToTable :: "Hashtable \<Rightarrow> Log list \<Rightarrow> Hashtable option" where
  "addLogsToTable ht [] = Some ht"
| "addLogsToTable ht (lg # rest) =
     (case addLogToTable ht lg of
        None \<Rightarrow> None
      | Some ht' \<Rightarrow> addLogsToTable ht' rest)"

section \<open>Notions used to state the properties\<close>

text \<open>
  The order that \<^verbatim>\<open>merge\<close> implements, as a key into a linear order: the bytes of the
  park name first, then the fields of the selected timestamp in the order
  \<^verbatim>\<open>compareTimestamps\<close> reads them. Lists and tuples are ordered lexicographically.
\<close>

definition tsKey :: "Timestamp \<Rightarrow> int \<times> int \<times> int \<times> int \<times> int" where
  "tsKey t = (year t, month t, day t, hour t, minute t)"

definition sortKey :: "char \<Rightarrow> Log \<Rightarrow> nat list \<times> int \<times> int \<times> int \<times> int \<times> int" where
  "sortKey sortBy l =
     (map of_char (parkName l),
      tsKey (if sortBy = CHR ''e'' then entryTimestamp l else exitTimestamp l))"

text \<open>A log of the first of January 2024, entered and left on the hour.\<close>

definition mkLog :: "string \<Rightarrow> string \<Rightarrow> int \<Rightarrow> int \<Rightarrow> Log" where
  "mkLog plt park entryHour exitHour =
     \<lparr>plate = plt, parkName = park,
      entryTimestamp = \<lparr>day = 1, month = 1, year = 2024, hour = entryHour, minute = 0\<rparr>,
      exitTimestamp = \<lparr>day = 1, month = 1, year = 2024, hour = exitHour, minute = 0\<rparr>\<rparr>"

text \<open>
  A table is well formed when its array has \<^verbatim>\<open>size\<close> entries and \<^verbatim>\<open>size\<close> is not zero;
  its logs are in their buckets when every log of chain \<open>i\<close> has a plate that hashes to
  \<open>i\<close> under the current size.
\<close>

definition ht_wf :: "Hashtable \<Rightarrow> bool" where
  "ht_wf ht \<longleftrightarrow> 0 < size_ht ht \<and> length (logs ht) = unat (size_ht ht)"

definition bucketIndex :: "Hashtable \<Rightarrow> string \<Rightarrow> nat" where
  "bucketIndex ht plt = unat (plateHash plt (size_ht ht))"

definition bucket_ok :: "Hashtable \<Rightarrow> bool" where
  "bucket_ok ht \<longleftrightarrow>
     (\<forall>i < length (logs ht). \<forall>l \<in> set (logs ht ! i). bucketIndex ht (plate l) = i)"

text \<open>
  The chain of the bucket of a plate; the log a \<^verbatim>\<open>Log*\<close> points to; the spec's
  \<open>find_open_entry\<close>, which is the log that \<^verbatim>\<open>getPlateLastLogWithoutExit\<close> returns;
  and, for a sequence of inserted logs, the open log of a plate that was inserted last.
\<close>

definition chainOfPlate :: "string \<Rightarrow> Hashtable \<Rightarrow> Log list option" where
  "chainOfPlate plt ht = getLogAtIndex (Some ht) (plateHash plt (size_ht ht))"

definition isOpenFor :: "string \<Rightarrow> Log \<Rightarrow> bool" where
  "isOpenFor plt l \<longleftrightarrow> plate l = plt \<and> isInitialTimestamp (exitTimestamp l)"

definition headLog :: "Log list \<Rightarrow> Log option" where
  "headLog chain = (case chain of [] \<Rightarrow> None | l # next \<Rightarrow> Some l)"

definition find_open_entry :: "string \<Rightarrow> Hashtable \<Rightarrow> Log option option" where
  "find_open_entry plt ht = map_option headLog (getPlateLastLogWithoutExit ht plt)"

definition mostRecentOpen :: "string \<Rightarrow> Log list \<Rightarrow> Log option" where
  "mostRecentOpen plt ls =
     (if filter (isOpenFor plt) ls = [] then None else Some (last (filter (isOpenFor plt) ls)))"

text \<open>
  Sample data: a log as \<^verbatim>\<open>registerEntryExit\<close> inserts it (made by \<^verbatim>\<open>newLog\<close>, entry
  time set, no exit), the table after two completed stays of one plate, and the table
  that holds one open log. The plate \<open>AA-00-00\<close> hashes to bucket 24 of 53.
\<close>

definition enterLog :: "string \<Rightarrow> string \<Rightarrow> int \<Rightarrow> Log" where
  "enterLog plt park entryHour =
     (newLog plt park)\<lparr>entryTimestamp :=
        \<lparr>day = 1, month = 1, year = 2024, hour = entryHour, minute = 0\<rparr>\<rparr>"

definition twoLogTable :: Hashtable where
  "twoLogTable =
     newHashtable\<lparr>logs := (logs newHashtable)
                     [24 := [mkLog ''AA-00-00'' ''ParkA'' 8 9, mkLog ''AA-00-00'' ''ParkA'' 10 11]],
                  numElements := 2\<rparr>"

definition oneOpenTable :: Hashtable where
  "oneOpenTable =
     newHashtable\<lparr>logs := (logs newHashtable)[24 := [enterLog ''AA-00-00'' ''ParkA'' 8]],
                  numElements := 1\<rparr>"

text \<open>
  Data for the load factor: 52 plates that hash, modulo 53, to the 52 buckets other
  than bucket 24 of \<open>AA-00-00\<close>; the insert sequence that first puts 39 logs of
  \<open>AA-00-00\<close> in one chain and then one log in each other bucket; and the pair of
  element count and bucket count of a table.
\<close>

definition spreadPlates :: "string list" where
  "spreadPlates =
     [''AA-00-43'', ''AA-00-44'', ''AA-00-45'', ''AA-00-46'', ''AA-00-10'', ''AA-00-11'',
      ''AA-00-12'', ''AA-00-13'', ''AA-00-14'', ''AA-00-15'', ''AA-00-16'', ''AA-00-17'',
      ''AA-00-18'', ''AA-00-19'', ''AA-00-64'', ''AA-00-65'', ''AA-00-66'', ''AA-00-30'',
      ''AA-00-31'', ''AA-00-32'', ''AA-00-33'', ''AA-00-34'', ''AA-00-35'', ''AA-00-36'',
      ''AA-00-01'', ''AA-00-02'', ''AA-00-03'', ''AA-00-04'', ''AA-00-05'', ''AA-00-06'',
      ''AA-00-07'', ''AA-00-08'', ''AA-00-09'', ''AA-00-54'', ''AA-00-55'', ''AA-00-56'',
      ''AA-00-20'', ''AA-00-21'', ''AA-00-22'', ''AA-00-23'', ''AA-00-24'', ''AA-00-25'',
      ''AA-00-26'', ''AA-00-27'', ''AA-00-28'', ''AA-00-29'', ''AA-00-74'', ''AA-00-75'',
      ''AA-00-76'', ''AA-00-40'', ''AA-00-41'', ''AA-00-42'']"

definition skewedInserts :: "Log list" where
  "skewedInserts =
     replicate 39 (enterLog ''AA-00-00'' ''ParkA'' 8) @
     map (\<lambda>plt. enterLog plt ''ParkA'' 8) spreadPlates"

definition loadOf :: "Hashtable \<Rightarrow> nat \<times> nat" where
  "loadOf ht = (unat (numElements ht), unat (size_ht ht))"

text \<open>Primality of a natural number: no divisor between 2 and the number.\<close>

definition prime_nat :: "nat \<Rightarrow> bool" where
  "prime_nat p \<longleftrightarrow> 1 < p \<and> (\<forall>d\<in>{2..<p}. \<not> d dvd p)"

section \<open>Ordered merge\<close>

subsection \<open>The order of \<^verbatim>\<open>merge\<close>\<close>

lemma strcmp_less_iff: "strcmp a b < 0 \<longleftrightarrow> (map of_char a :: nat list) < map of_char b"
  by (induction a b rule: strcmp.induct) auto

lemma strcmp_eq_iff: "strcmp a b = 0 \<longleftrightarrow> (map of_char a :: nat list) = map of_char b"
  by (induction a b rule: strcmp.induct) auto

lemma compareTimestamps_less_iff: "compareTimestamps s t = -1 \<longleftrightarrow> tsKey s < tsKey t"
  by (auto simp: compareTimestamps_def compareDate_def tsKey_def Let_def less_prod_def)

lemma sortKey_less_iff:
  "sortKey c a < sortKey c b \<longleftrightarrow>
     strcmp (parkName a) (parkName b) < 0 \<or>
     strcmp (parkName a) (parkName b) = 0 \<and>
     (if c = CHR ''e''
      then compareTimestamps (entryTimestamp a) (entryTimestamp b) = -1
      else compareTimestamps (exitTimestamp a) (exitTimestamp b) = -1)"
  by (auto simp: sortKey_def strcmp_less_iff strcmp_eq_iff compareTimestamps_less_iff)

lemma sortKey_eq_iff:
  "sortKey c a = sortKey c b \<longleftrightarrow>
     parkName a = parkName b \<and>
     (if c = CHR ''e'' then entryTimestamp a = entryTimestamp b
      else exitTimestamp a = exitTimestamp b)"
  by (auto simp: sortKey_def tsKey_def map_eq_conv dest!: map_injective [OF _ injI])

lemma merge_Cons_Cons:
  "merge (a # list1) (b # list2) c =
     (if sortKey c a < sortKey c b then a # merge list1 (b # list2) c
      else b # merge (a # list1) list2 c)"
  by (simp only: merge.simps Let_def sortKey_less_iff)

subsection \<open>Merging and sorting keep the nodes and order them by the key\<close>

lemma mset_merge: "mset (merge xs ys c) = mset xs + mset ys"
  by (induction xs ys c rule: merge.induct) (simp_all add: Let_def)

lemma set_merge: "set (merge xs ys c) = set xs \<union> set ys"
  by (metis mset_merge set_mset_mset set_mset_union)

lemma sorted_merge:
  "sorted (map (sortKey c) xs) \<Longrightarrow> sorted (map (sortKey c) ys) \<Longrightarrow>
   sorted (map (sortKey c) (merge xs ys c))"
proof (induction xs ys c rule: merge.induct)
  case (3 a list1 b list2 sortBy)
  let ?k = "sortKey sortBy"
  from "3.prems" have a_le: "\<forall>x\<in>set list1. ?k a \<le> ?k x" and b_le: "\<forall>y\<in>set list2. ?k b \<le> ?k y"
    and s1: "sorted (map ?k list1)" and s2: "sorted (map ?k list2)"
    by simp_all
  show ?case
  proof (cases "?k a < ?k b")
    case True
    then have take: "strcmp (parkName a) (parkName b) < 0 \<or>
        strcmp (parkName a) (parkName b) = 0 \<and>
        (if sortBy = CHR ''e''
         then compareTimestamps (entryTimestamp a) (entryTimestamp b) = -1
         else compareTimestamps (exitTimestamp a) (exitTimestamp b) = -1)"
      unfolding sortKey_less_iff .
    have "sorted (map ?k (merge list1 (b # list2) sortBy))"
      by (rule "3.IH"(1) [OF refl refl]) (use take s1 "3.prems"(2) in blast)+
    moreover have "\<forall>x\<in>set (merge list1 (b # list2) sortBy). ?k a \<le> ?k x"
      using a_le b_le True by (auto simp: set_merge intro: less_imp_le order_trans)
    ultimately show ?thesis
      using True by (simp only: merge_Cons_Cons) simp
  next
    case False
    then have notake: "\<not> (strcmp (parkName a) (parkName b) < 0 \<or>
        strcmp (parkName a) (parkName b) = 0 \<and>
        (if sortBy = CHR ''e''
         then compareTimestamps (entryTimestamp a) (entryTimestamp b) = -1
         else compareTimestamps (exitTimestamp a) (exitTimestamp b) = -1))"
      unfolding sortKey_less_iff .
    have "sorted (map ?k (merge (a # list1) list2 sortBy))"
      by (rule "3.IH"(2) [OF refl refl]) (use notake s2 "3.prems"(1) in blast)+
    moreover have "\<forall>x\<in>set (merge (a # list1) list2 sortBy). ?k b \<le> ?k x"
      using a_le b_le False by (auto simp: set_merge intro: order_trans)
    ultimately show ?thesis
      using False by (simp only: merge_Cons_Cons) simp
  qed
qed simp_all

lemma split_append: "fst (split (x # xs)) @ snd (split (x # xs)) = x # xs"
  by (simp add: Let_def)

lemma mset_mergeSort: "mset (mergeSort xs c) = mset xs"
proof (induction xs c rule: mergeSort.induct)
  case (3 x y zs sortBy)
  have "mset (mergeSort (x # y # zs) sortBy) =
        mset (fst (split (x # y # zs))) + mset (snd (split (x # y # zs)))"
    using 3 by (simp only: mergeSort.simps mset_merge)
  also have "\<dots> = mset (fst (split (x # y # zs)) @ snd (split (x # y # zs)))"
    by simp
  finally show ?case by (simp only: split_append)
qed simp_all

text \<open>
  For either value of \<^verbatim>\<open>sortBy\<close> the result of \<^verbatim>\<open>mergeSort\<close> is ordered by park name
  first and by the selected timestamp second.
\<close>

lemma sorted_mergeSort: "sorted (map (sortKey c) (mergeSort xs c))"
proof (induction xs c rule: mergeSort.induct)
  case (3 x y zs sortBy)
  then show ?case
    by (simp only: mergeSort.simps sorted_merge)
qed simp_all

lemma strict_sorted_unique:
  "sorted_wrt (\<lambda>a b. f a < f b) xs \<Longrightarrow> sorted (map f ys) \<Longrightarrow> mset xs = mset ys \<Longrightarrow> xs = ys"
  for f :: "'a \<Rightarrow> 'b::linorder"
proof (induction xs arbitrary: ys)
  case Nil
  then show ?case by simp
next
  case (Cons x xs)
  then obtain y ys' where ys: "ys = y # ys'"
    by (cases ys) auto
  have "x = y"
  proof (rule ccontr)
    assume "x \<noteq> y"
    from Cons.prems(3) ys have "x \<in> set ys'" "y \<in> set xs"
      using \<open>x \<noteq> y\<close>
      by (metis insert_iff list.simps(15) mset_eq_setD)+
    with Cons.prems(1,2) ys have "f x < f y" "f y \<le> f x"
      by auto
    then show False by simp
  qed
  with Cons ys show ?case by auto
qed

lemma mergeSort_strictly_sorted_id:
  "sorted_wrt (\<lambda>a b. sortKey c a < sortKey c b) xs \<Longrightarrow> mergeSort xs c = xs"
  using strict_sorted_unique [of "sortKey c" xs "mergeSort xs c"]
  by (simp add: sorted_mergeSort mset_mergeSort)

subsection \<open>Sorting by exit\<close>

text \<open>
  C1. The claim: with a sort key other than \<^verbatim>\<open>'e'\<close>, \<^verbatim>\<open>mergeSort\<close> orders a chain by
  exit timestamp first and by park name among equal exit timestamps. The code compares
  the park names first: a log of park \<open>ParkB\<close> that left at 9:00 and a log of park
  \<open>ParkA\<close> that left at 10:00 come out with the later exit in front.
\<close>

theorem C1_mergeSort_exit_puts_park_name_first:
  "mergeSort [mkLog ''AA-00-00'' ''ParkB'' 8 9, mkLog ''BB-00-00'' ''ParkA'' 8 10] (CHR ''s'')
     = [mkLog ''BB-00-00'' ''ParkA'' 8 10, mkLog ''AA-00-00'' ''ParkB'' 8 9]
   \<and> compareTimestamps (exitTimestamp (mkLog ''BB-00-00'' ''ParkA'' 8 10))
                        (exitTimestamp (mkLog ''AA-00-00'' ''ParkB'' 8 9)) = 1"
  by (simp add: mkLog_def compareTimestamps_def compareDate_def)

text \<open>
  C6, as stated: sorting with a key other than \<^verbatim>\<open>'e'\<close> a chain that is already sorted
  (its own output in particular) returns the identical chain. Two logs of one park with
  the same exit time are swapped by every pass, because \<^verbatim>\<open>merge\<close> takes the node of
  its second list when neither node precedes the other.
\<close>

theorem C6_mergeSort_swaps_equal_keys:
  "mergeSort [mkLog ''AA-00-00'' ''ParkA'' 8 9, mkLog ''BB-00-00'' ''ParkA'' 8 9] (CHR ''s'')
     = [mkLog ''BB-00-00'' ''ParkA'' 8 9, mkLog ''AA-00-00'' ''ParkA'' 8 9]
   \<and> mergeSort (mergeSort [mkLog ''AA-00-00'' ''ParkA'' 8 9, mkLog ''BB-00-00'' ''ParkA'' 8 9]
                   (CHR ''s'')) (CHR ''s'')
     \<noteq> mergeSort [mkLog ''AA-00-00'' ''ParkA'' 8 9, mkLog ''BB-00-00'' ''ParkA'' 8 9] (CHR ''s'')"
  by (simp add: mkLog_def compareTimestamps_def compareDate_def)

text \<open>
  C6, amended: \<^verbatim>\<open>mergeSort\<close> with a key other than \<^verbatim>\<open>'e'\<close> returns the identical
  chain when the chain is strictly ascending in the order \<^verbatim>\<open>merge\<close> compares by; and it
  is idempotent on every chain in which no two logs agree on both park name and exit
  timestamp.
\<close>

theorem C6_mergeSort_idempotent_without_ties:
  assumes "sortBy \<noteq> CHR ''e''"
  shows "(sorted_wrt (\<lambda>a b. sortKey sortBy a < sortKey sortBy b) L \<longrightarrow> mergeSort L sortBy = L) \<and>
         (distinct (map (\<lambda>l. (parkName l, exitTimestamp l)) L) \<longrightarrow>
            mergeSort (mergeSort L sortBy) sortBy = mergeSort L sortBy)"
proof (intro conjI impI)
  assume "sorted_wrt (\<lambda>a b. sortKey sortBy a < sortKey sortBy b) L"
  then show "mergeSort L sortBy = L"
    by (rule mergeSort_strictly_sorted_id)
next
  let ?out = "mergeSort L sortBy"
  assume "distinct (map (\<lambda>l. (parkName l, exitTimestamp l)) L)"
  then have "distinct (map (sortKey sortBy) L)"
    using assms by (auto simp: distinct_map inj_on_def sortKey_eq_iff)
  then have "distinct (map (sortKey sortBy) ?out)"
    by (metis mset_mergeSort mset_map mset_eq_imp_distinct_iff)
  with sorted_mergeSort [of sortBy L]
  have "sorted_wrt (<) (map (sortKey sortBy) ?out)"
    by (simp add: strict_sorted_iff)
  then have "sorted_wrt (\<lambda>a b. sortKey sortBy a < sortKey sortBy b) ?out"
    by (simp add: sorted_wrt_map)
  then show "mergeSort ?out sortBy = ?out"
    by (rule mergeSort_strictly_sorted_id)
qed

theorem C6_mergeSort_idempotent_witness:
  "CHR ''s'' \<noteq> CHR ''e''
   \<and> distinct (map (\<lambda>l. (parkName l, exitTimestamp l))
        [mkLog ''AA-00-00'' ''ParkB'' 8 9, mkLog ''BB-00-00'' ''ParkA'' 8 10])
   \<and> mergeSort (mergeSort [mkLog ''AA-00-00'' ''ParkB'' 8 9, mkLog ''BB-00-00'' ''ParkA'' 8 10]
                   (CHR ''s'')) (CHR ''s'')
     = mergeSort [mkLog ''AA-00-00'' ''ParkB'' 8 9, mkLog ''BB-00-00'' ''ParkA'' 8 10] (CHR ''s'')
   \<and> sorted_wrt (\<lambda>a b. sortKey (CHR ''s'') a < sortKey (CHR ''s'') b)
        [mkLog ''BB-00-00'' ''ParkA'' 8 10, mkLog ''AA-00-00'' ''ParkB'' 8 9]
   \<and> mergeSort [mkLog ''BB-00-00'' ''ParkA'' 8 10, mkLog ''AA-00-00'' ''ParkB'' 8 9] (CHR ''s'')
     = [mkLog ''BB-00-00'' ''ParkA'' 8 10, mkLog ''AA-00-00'' ''ParkB'' 8 9]"
proof -
  have ne: "CHR ''s'' \<noteq> CHR ''e''"
    by simp
  have d: "distinct (map (\<lambda>l. (parkName l, exitTimestamp l))
        [mkLog ''AA-00-00'' ''ParkB'' 8 9, mkLog ''BB-00-00'' ''ParkA'' 8 10])"
    by (simp add: mkLog_def)
  have s: "sorted_wrt (\<lambda>a b. sortKey (CHR ''s'') a < sortKey (CHR ''s'') b)
        [mkLog ''BB-00-00'' ''ParkA'' 8 10, mkLog ''AA-00-00'' ''ParkB'' 8 9]"
    by (simp add: mkLog_def sortKey_def tsKey_def)
  from C6_mergeSort_idempotent_without_ties [OF ne, of "[mkLog ''AA-00-00'' ''ParkB'' 8 9, mkLog ''BB-00-00'' ''ParkA'' 8 10]"]
    C6_mergeSort_idempotent_without_ties [OF ne, of "[mkLog ''BB-00-00'' ''ParkA'' 8 10, mkLog ''AA-00-00'' ''ParkB'' 8 9]"]
  show ?thesis
    using ne d s by blast
qed

section \<open>Prime search\<close>

subsection \<open>Both loops end, for every 32-bit argument\<close>

text \<open>
  The candidate divisor \<open>i\<close> runs through the odd words in steps of 6. Multiplying a
  difference of odd words by the inverse of 3 modulo \<open>2^32\<close> gives twice the number of
  steps that \<open>i\<close> is away from \<open>num\<close>; at \<open>i = num\<close> the division test succeeds, so
  the loop of \<^verbatim>\<open>isPrime\<close> ends at the latest there. In the same way the scan of
  \<^verbatim>\<open>nearestPrime\<close> ends at the latest when the candidate wraps around to 3.
\<close>

lemma even_word_ge_2:
  fixes w :: u32
  assumes "even w" "w \<noteq> 0"
  shows "2 \<le> w"
proof -
  from assms have "w \<noteq> 1" by auto
  with \<open>w \<noteq> 0\<close> have "unat w \<noteq> 0" "unat w \<noteq> 1"
    by (simp_all add: word_unat_eq_iff)
  then have "2 \<le> unat w" by simp
  then show ?thesis by (simp add: word_le_nat_alt)
qed

lemma unat_minus_2_less:
  fixes w :: u32
  assumes "even w" "w \<noteq> 0"
  shows "unat (w - 2) < unat w"
proof -
  have "2 \<le> w" using assms by (rule even_word_ge_2)
  then have "unat (w - 2) = unat w - 2" by (simp add: unat_sub)
  moreover from \<open>2 \<le> w\<close> have "2 \<le> unat w" by (simp add: word_le_nat_alt)
  ultimately show ?thesis by simp
qed

lemma inverse_of_3_times_6: "(6 :: u32) * 2863311531 = 2" by simp
lemma inverse_of_3_times_3: "(3 :: u32) * 2863311531 = 1" by simp

lemma isPrime_loop_terminates:
  assumes "odd num"
  shows "odd i \<Longrightarrow> \<exists>b. isPrime_loop num i = Some b"
proof (induction "unat ((num - i) * 2863311531)" arbitrary: i rule: less_induct)
  case less
  show ?case
  proof (cases "i * i \<le> num \<and> \<not> (num mod i = 0 \<or> num mod (i + 2) = 0)")
    case False
    then show ?thesis
      by (subst isPrime_loop.simps) auto
  next
    case True
    let ?w = "(num - i) * 2863311531"
    from True have "num \<noteq> i" by auto
    have "?w \<noteq> 0"
    proof
      assume "?w = 0"
      then have "(num - i) * (2863311531 * 3) = 0"
        by (simp only: mult.assoc [symmetric] mult_zero_left)
      moreover have "(2863311531 * 3 :: u32) = 1" by simp
      ultimately have "num - i = 0" by (simp only: mult_1_right)
      with \<open>num \<noteq> i\<close> show False by simp
    qed
    moreover have "even ?w" using assms less.prems by simp
    ultimately have "unat (?w - 2) < unat ?w" by (intro unat_minus_2_less)
    moreover have step: "(num - (i + 6)) * 2863311531 = ?w - 2"
    proof -
      have "(num - (i + 6)) * 2863311531 = ?w - 6 * 2863311531"
        by (simp only: diff_diff_eq [symmetric] left_diff_distrib)
      then show ?thesis by (simp only: inverse_of_3_times_6)
    qed
    ultimately have "unat ((num - (i + 6)) * 2863311531) < unat ?w"
      by (simp only:)
    moreover have "odd (i + 6)" using less.prems by simp
    ultimately have "\<exists>b. isPrime_loop num (i + 6) = Some b"
      by (rule less.hyps)
    with True show ?thesis
      by (subst isPrime_loop.simps) auto
  qed
qed

subsection \<open>Below \<open>65531^2\<close>, \<^verbatim>\<open>isPrime\<close> decides primality\<close>

lemma unat_of_nat_u32: "k < 4294967296 \<Longrightarrow> unat (of_nat k :: u32) = k"
  by (simp add: unat_of_nat)

lemma isPrime_loop_nat:
  assumes "k \<le> 65531" "n < 4294967296"
  shows "isPrime_loop (of_nat n) (of_nat k) =
     (if k * k \<le> n
      then (if k dvd n \<or> (k + 2) dvd n then Some False
            else isPrime_loop (of_nat n) (of_nat (k + 6)))
      else Some True)"
proof -
  have "k * k \<le> 65531 * 65531"
    using assms(1) assms(1) by (rule mult_le_mono)
  then have "k * k < 4294967296" by simp
  then have "unat (of_nat (k * k) :: u32) = k * k"
    by (rule unat_of_nat_u32)
  then have kk: "unat (of_nat k * of_nat k :: u32) = k * k"
    by (simp only: of_nat_mult)
  have k: "unat (of_nat k :: u32) = k" and n: "unat (of_nat n :: u32) = n"
    using assms by (simp_all add: unat_of_nat_u32)
  have "unat (of_nat (k + 2) :: u32) = k + 2"
    using assms by (intro unat_of_nat_u32) simp
  then have k2: "unat (of_nat k + 2 :: u32) = k + 2"
    by (simp add: add.commute)
  have "(of_nat n :: u32) mod of_nat k = 0 \<longleftrightarrow> k dvd n"
    by (simp add: word_unat_eq_iff unat_mod_distrib k n dvd_eq_mod_eq_0)
  moreover have "(of_nat n :: u32) mod (of_nat k + 2) = 0 \<longleftrightarrow> (k + 2) dvd n"
    by (simp add: word_unat_eq_iff unat_mod_distrib k2 n dvd_eq_mod_eq_0)
  moreover have "(of_nat k * of_nat k :: u32) \<le> of_nat n \<longleftrightarrow> k * k \<le> n"
    by (simp only: word_le_nat_alt kk n)
  moreover have "(of_nat k + 6 :: u32) = of_nat (k + 6)"
    by simp
  ultimately show ?thesis
    by (subst isPrime_loop.simps) (simp only:)
qed

lemma isPrime_loop_correct:
  fixes n :: nat
  assumes n: "n < 65531 * 65531" "\<not> 2 dvd n" "\<not> 3 dvd n" and n1: "1 < n"
  shows "k mod 6 = 5 \<Longrightarrow> k \<le> 65531 \<Longrightarrow> (\<forall>d. 2 \<le> d \<and> d < k \<longrightarrow> \<not> d dvd n) \<Longrightarrow>
         isPrime_loop (of_nat n) (of_nat k) = Some (prime_nat n)"
proof (induction "65531 - k" arbitrary: k rule: less_induct)
  case less
  have n32: "n < 4294967296" using n(1) by simp
  note unfold = isPrime_loop_nat [OF less.prems(2) n32]
  have k5: "5 \<le> k" using less.prems(1) by presburger
  show ?case
  proof (cases "k * k \<le> n")
    case False
    have "prime_nat n"
      unfolding prime_nat_def
    proof (intro conjI ballI notI)
      show "1 < n" by (rule n1)
    next
      fix d assume d: "d \<in> {2..<n}" "d dvd n"
      then obtain e where e: "n = d * e" by (auto simp: dvd_def)
      with d have "2 \<le> e" by (cases "e = 0"; cases "e = 1") auto
      have "e dvd n" using e by simp
      have "d < k \<or> e < k"
      proof (rule ccontr)
        assume "\<not> (d < k \<or> e < k)"
        then have "k * k \<le> d * e" by (intro mult_le_mono) auto
        with e False show False by simp
      qed
      with less.prems(3) d \<open>2 \<le> e\<close> \<open>e dvd n\<close> show False by auto
    qed
    with False show ?thesis by (simp add: unfold)
  next
    case True
    show ?thesis
    proof (cases "k dvd n \<or> (k + 2) dvd n")
      case dv: True
      have "k + 2 < k * k"
      proof -
        have "5 * k \<le> k * k" using k5 by simp
        with k5 show ?thesis by linarith
      qed
      with True have "k + 2 < n" by simp
      with dv k5 have "\<exists>d\<in>{2..<n}. d dvd n" by auto
      then have "\<not> prime_nat n" by (auto simp: prime_nat_def)
      with True dv show ?thesis by (simp add: unfold)
    next
      case nd: False
      have "k < 65531"
      proof (rule ccontr)
        assume "\<not> k < 65531"
        then have "65531 * 65531 \<le> k * k" by (intro mult_le_mono) auto
        with True n(1) show False by simp
      qed
      with less.prems(1) have k6: "k + 6 \<le> 65531" by presburger
      have inv: "\<forall>d. 2 \<le> d \<and> d < k + 6 \<longrightarrow> \<not> d dvd n"
      proof (intro allI impI notI)
        fix d assume d: "2 \<le> d \<and> d < k + 6" and dv: "d dvd n"
        with less.prems(3) have "k \<le> d" by (meson not_le)
        with d nd dv have "d = k + 1 \<or> d = k + 3 \<or> d = k + 4 \<or> d = k + 5"
          by (cases "d = k"; cases "d = k + 2") auto
        with less.prems(1) have "2 dvd d \<or> 3 dvd d" by presburger
        with dv n(2,3) show False using dvd_trans by blast
      qed
      have "isPrime_loop (of_nat n) (of_nat (k + 6)) = Some (prime_nat n)"
      proof (rule less.hyps)
        show "65531 - (k + 6) < 65531 - k" using k6 by simp
        show "(k + 6) mod 6 = 5" using less.prems(1) by presburger
      qed (use k6 inv in simp_all)
      with True nd show ?thesis by (simp add: unfold)
    qed
  qed
qed

lemma prime_nat_2: "prime_nat 2" and prime_nat_3: "prime_nat 3"
proof -
  show "prime_nat 2" by (simp add: prime_nat_def)
  have "{2..<3} = {2::nat}" by auto
  then show "prime_nat 3" by (simp add: prime_nat_def)
qed

lemma isPrime_correct:
  assumes "unat num < 65531 * 65531"
  shows "isPrime num = Some (prime_nat (unat num))"
proof -
  let ?n = "unat num"
  have num: "num = of_nat ?n" by simp
  have le1: "num \<le> 1 \<longleftrightarrow> ?n \<le> 1" and le3: "num \<le> 3 \<longleftrightarrow> ?n \<le> 3"
    by (simp_all add: word_le_nat_alt)
  have m2: "num mod 2 = 0 \<longleftrightarrow> 2 dvd ?n" and m3: "num mod 3 = 0 \<longleftrightarrow> 3 dvd ?n"
    by (simp_all add: word_unat_eq_iff unat_mod_distrib dvd_eq_mod_eq_0)
  consider "?n \<le> 1" | "?n = 2" | "?n = 3" | "3 < ?n" "2 dvd ?n \<or> 3 dvd ?n"
    | "3 < ?n" "\<not> 2 dvd ?n" "\<not> 3 dvd ?n"
    by linarith
  then show ?thesis
  proof cases
    case 1
    then show ?thesis by (auto simp: isPrime_def le1 prime_nat_def)
  next
    case 2
    then show ?thesis by (simp add: isPrime_def le1 le3 prime_nat_2)
  next
    case 3
    then show ?thesis by (simp add: isPrime_def le1 le3 prime_nat_3)
  next
    case 4
    then have "\<exists>d\<in>{2..<?n}. d dvd ?n" by auto
    then have "\<not> prime_nat ?n" by (auto simp: prime_nat_def)
    with 4 show ?thesis by (simp add: isPrime_def le1 le3 m2 m3)
  next
    case 5
    have inv: "\<forall>d. 2 \<le> d \<and> d < 5 \<longrightarrow> \<not> d dvd ?n"
    proof (intro allI impI notI)
      fix d assume d: "2 \<le> d \<and> d < 5" and dv: "d dvd ?n"
      then have "d = 2 \<or> d = 3 \<or> d = 4" by linarith
      then have "2 dvd d \<or> 3 dvd d" by auto
      with dv 5 show False using dvd_trans by blast
    qed
    have "isPrime_loop (of_nat ?n) (of_nat 5) = Some (prime_nat ?n)"
      by (rule isPrime_loop_correct [OF assms 5(2,3)]) (use inv 5(1) in simp_all)
    then have "isPrime_loop num 5 = Some (prime_nat ?n)" by simp
    with 5 show ?thesis by (simp add: isPrime_def le1 le3 m2 m3)
  qed
qed

lemma even_unat_u32: "even (unat w) \<longleftrightarrow> even w" for w :: u32
proof -
  have "even w \<longleftrightarrow> w mod 2 = 0" by (rule even_iff_mod_2_eq_zero)
  also have "\<dots> \<longleftrightarrow> unat w mod 2 = 0"
    by (simp add: word_unat_eq_iff unat_mod_distrib)
  finally show ?thesis by (simp add: even_iff_mod_2_eq_zero)
qed

lemma isPrime_terminates: "\<exists>b. isPrime num = Some b"
proof -
  have "\<exists>b. isPrime_loop num 5 = Some b" if "\<not> (num mod 2 = 0 \<or> num mod 3 = 0)"
  proof -
    from that have "odd num" by (simp add: even_iff_mod_2_eq_zero)
    moreover have "odd (5 :: u32)" by simp
    ultimately show ?thesis by (rule isPrime_loop_terminates)
  qed
  then show ?thesis
    unfolding isPrime_def by (simp only: split: if_split) blast
qed

lemma isPrime_3: "isPrime 3 = Some True"
  by (simp add: isPrime_def word_le_nat_alt)

lemma nearestPrime_loop_terminates:
  "odd n \<Longrightarrow> \<exists>r. nearestPrime_loop n = Some r \<and> isPrime r = Some True"
proof (induction "unat (3 - n)" arbitrary: n rule: less_induct)
  case less
  obtain b where b: "isPrime n = Some b"
    using isPrime_terminates by blast
  show ?case
  proof (cases b)
    case True
    with b show ?thesis by (subst nearestPrime_loop.simps) simp
  next
    case False
    with b isPrime_3 have "n \<noteq> 3" by auto
    then have "3 - n \<noteq> 0" by simp
    moreover have "even (3 - n)" using less.prems by simp
    ultimately have "unat (3 - n - 2) < unat (3 - n)"
      by (intro unat_minus_2_less)
    moreover have "3 - (n + 2) = 3 - n - 2" by simp
    ultimately have "unat (3 - (n + 2)) < unat (3 - n)" by (simp only:)
    moreover have "odd (n + 2)" using less.prems by simp
    ultimately have "\<exists>r. nearestPrime_loop (n + 2) = Some r \<and> isPrime r = Some True"
      by (rule less.hyps)
    with b False show ?thesis by (subst nearestPrime_loop.simps) simp
  qed
qed

lemma isPrime_2: "isPrime 2 = Some True"
  by (simp add: isPrime_def word_le_nat_alt)

lemma nearestPrime_terminates: "\<exists>r. nearestPrime n = Some r \<and> isPrime r = Some True"
proof (cases "n \<le> 1")
  case True
  then show ?thesis by (simp add: nearestPrime_def isPrime_2)
next
  case False
  have "odd (if n mod 2 = 0 then n + 1 else n)"
    by (simp add: even_iff_mod_2_eq_zero [symmetric])
  then show ?thesis
    using False nearestPrime_loop_terminates by (simp only: nearestPrime_def if_False)
qed

lemma isPrime_True_gt_1: "isPrime r = Some True \<Longrightarrow> 1 < r"
  by (auto simp: isPrime_def split: if_splits)

lemma nearestPrime_loop_value:
  assumes q: "prime_nat q" "odd q" "q < 65531 * 65531"
  shows "odd n \<Longrightarrow> unat n \<le> q \<Longrightarrow>
    \<exists>r. nearestPrime_loop n = Some r \<and> n \<le> r \<and> unat r \<le> q \<and> prime_nat (unat r) \<and>
        odd r \<and> (\<forall>m. unat n \<le> m \<and> m < unat r \<and> odd m \<longrightarrow> \<not> prime_nat m)"
proof (induction "q - unat n" arbitrary: n rule: less_induct)
  case less
  have ip: "isPrime n = Some (prime_nat (unat n))"
    using less.prems(2) q(3) by (intro isPrime_correct) simp
  show ?case
  proof (cases "prime_nat (unat n)")
    case True
    with ip less.prems show ?thesis
      by (subst nearestPrime_loop.simps) auto
  next
    case False
    with q(1) have "unat n \<noteq> q" by auto
    moreover have "odd (unat n)" using less.prems(1) by (simp add: even_unat_u32)
    ultimately have n2: "unat n + 2 \<le> q" using less.prems(2) q(2)
      by (metis Suc_leI add_2_eq_Suc' even_Suc le_neq_implies_less)
    then have "unat n + unat (2 :: u32) < 2 ^ LENGTH(32)" using q(3) by simp
    then have u2: "unat (n + 2) = unat n + 2"
      by (simp add: unat_add_lem [THEN iffD1])
    have "\<exists>r. nearestPrime_loop (n + 2) = Some r \<and> n + 2 \<le> r \<and> unat r \<le> q \<and>
        prime_nat (unat r) \<and> odd r \<and>
        (\<forall>m. unat (n + 2) \<le> m \<and> m < unat r \<and> odd m \<longrightarrow> \<not> prime_nat m)"
    proof (rule less.hyps)
      show "q - unat (n + 2) < q - unat n" using n2 u2 by simp
      show "odd (n + 2)" using less.prems(1) by simp
      show "unat (n + 2) \<le> q" using n2 u2 by simp
    qed
    then obtain r where r: "nearestPrime_loop (n + 2) = Some r" "n + 2 \<le> r" "unat r \<le> q"
      "prime_nat (unat r)" "\<forall>m. unat (n + 2) \<le> m \<and> m < unat r \<and> odd m \<longrightarrow> \<not> prime_nat m"
      "odd r"
      by blast
    from r(2) u2 have "n \<le> r" by (simp add: word_le_nat_alt)
    moreover have "\<forall>m. unat n \<le> m \<and> m < unat r \<and> odd m \<longrightarrow> \<not> prime_nat m"
    proof (intro allI impI)
      fix m assume m: "unat n \<le> m \<and> m < unat r \<and> odd m"
      show "\<not> prime_nat m"
      proof (cases "m = unat n")
        case True
        with False show ?thesis by simp
      next
        case False
        with m \<open>odd (unat n)\<close> have "unat n + 2 \<le> m"
          by (metis Suc_leI add_2_eq_Suc' even_Suc le_neq_implies_less)
        with m r(5) u2 show ?thesis by simp
      qed
    qed
    moreover have "nearestPrime_loop n = Some r"
      using ip False r(1) by (subst nearestPrime_loop.simps) simp
    ultimately show ?thesis using r by blast
  qed
qed

lemma nearestPrime_value:
  assumes q: "prime_nat q" "odd q" "q < 65531 * 65531" and n: "unat n \<le> q"
  shows "\<exists>r. nearestPrime n = Some r \<and> n \<le> r \<and> unat r \<le> q \<and> prime_nat (unat r) \<and>
        (n \<le> 1 \<longrightarrow> r = 2) \<and>
        (1 < n \<longrightarrow> odd r \<and> (\<forall>m. unat n \<le> m \<and> m < unat r \<and> odd m \<longrightarrow> \<not> prime_nat m))"
proof (cases "n \<le> 1")
  case True
  from q(1,2) have "2 \<le> q" by (auto simp: prime_nat_def)
  with True show ?thesis
    by (auto simp: nearestPrime_def prime_nat_2 word_le_nat_alt word_less_nat_alt)
next
  case False
  let ?n' = "if n mod 2 = 0 then n + 1 else n"
  have odd': "odd ?n'" by (simp add: even_iff_mod_2_eq_zero [symmetric])
  have un': "unat ?n' = (if even (unat n) then unat n + 1 else unat n)"
  proof (cases "n mod 2 = 0")
    case True
    then have "even n" unfolding even_iff_mod_2_eq_zero .
    then have ev: "even (unat n)" by (simp add: even_unat_u32)
    with n q(2) have "unat n \<noteq> q" by auto
    with n q(3) have "unat n + unat (1 :: u32) < 2 ^ LENGTH(32)" by simp
    then have "unat (n + 1) = unat n + 1"
      by (simp add: unat_add_lem [THEN iffD1])
    with True ev show ?thesis by simp
  next
    case False
    then have "odd n" unfolding even_iff_mod_2_eq_zero .
    then have "odd (unat n)" by (simp add: even_unat_u32)
    with False show ?thesis by simp
  qed
  have le': "unat ?n' \<le> q"
  proof (cases "even (unat n)")
    case True
    with q(2) have "unat n \<noteq> q" by auto
    with n True show ?thesis by (simp add: un')
  next
    case False
    with n show ?thesis by (simp add: un')
  qed
  from nearestPrime_loop_value [OF q odd' le']
  obtain r where r: "nearestPrime_loop ?n' = Some r" "?n' \<le> r" "unat r \<le> q"
    "prime_nat (unat r)" "\<forall>m. unat ?n' \<le> m \<and> m < unat r \<and> odd m \<longrightarrow> \<not> prime_nat m"
    "odd r"
    by blast
  have "n \<le> r" using r(2) un' by (auto simp: word_le_nat_alt split: if_splits)
  moreover note \<open>odd r\<close>
  moreover have "\<forall>m. unat n \<le> m \<and> m < unat r \<and> odd m \<longrightarrow> \<not> prime_nat m"
  proof (intro allI impI)
    fix m assume m: "unat n \<le> m \<and> m < unat r \<and> odd m"
    then have "m \<noteq> unat n" if "even (unat n)" using that by auto
    with m have "unat ?n' \<le> m" by (auto simp: un')
    with m r(5) show "\<not> prime_nat m" by blast
  qed
  moreover have "nearestPrime n = Some r"
    using False r(1) by (simp only: nearestPrime_def if_False)
  ultimately show ?thesis using r(3,4) False by auto
qed

lemma isPrime_10007: "isPrime 10007 = Some True"
  by (simp add: isPrime_def isPrime_loop.simps word_le_nat_alt unat_mod_distrib)

lemma prime_nat_10007: "prime_nat 10007"
proof -
  have "isPrime 10007 = Some (prime_nat (unat (10007 :: u32)))"
    by (rule isPrime_correct) simp
  with isPrime_10007 show ?thesis by simp
qed

lemma isPrime_1000003: "isPrime 1000003 = Some True"
  by code_simp

lemma prime_nat_1000003: "prime_nat 1000003"
proof -
  have "isPrime 1000003 = Some (prime_nat (unat (1000003 :: u32)))"
    by (rule isPrime_correct) simp
  with isPrime_1000003 show ?thesis by simp
qed

lemma prime_nat_odd: "prime_nat p \<Longrightarrow> 2 < p \<Longrightarrow> odd p"
  by (auto simp: prime_nat_def)

lemma nearestPrime_1: "nearestPrime 1 = Some 2"
  by (simp add: nearestPrime_def)

lemma isPrime_53: "isPrime 53 = Some True"
  by (simp add: isPrime_def isPrime_loop.simps word_le_nat_alt unat_mod_distrib)

lemma nearestPrime_53: "nearestPrime 53 = Some 53"
  by (simp add: nearestPrime_def nearestPrime_loop.simps isPrime_53 word_le_nat_alt unat_mod_distrib)


text \<open>
  C7. For every \<open>n\<close> from 0 to 10000, \<^verbatim>\<open>nearestPrime n\<close> returns a prime that is at
  least \<open>n\<close>; \<^verbatim>\<open>nearestPrime 1\<close> is 2 and \<^verbatim>\<open>nearestPrime 53\<close> is 53; an \<open>n\<close> of at
  most 1 gives 2, and a larger \<open>n\<close> gives the first prime among \<open>n\<close> made odd and the
  odd numbers after it.
\<close>

theorem C7_nearestPrime_up_to_10000:
  "nearestPrime 1 = Some 2 \<and> nearestPrime 53 = Some 53 \<and>
   (n \<le> 10000 \<longrightarrow>
      (\<exists>r. nearestPrime n = Some r \<and> prime_nat (unat r) \<and> n \<le> r \<and>
           (n \<le> 1 \<longrightarrow> r = 2) \<and>
           (1 < n \<longrightarrow> odd r \<and> (\<forall>m. unat n \<le> m \<and> m < unat r \<and> odd m \<longrightarrow> \<not> prime_nat m))))"
proof (intro conjI impI)
  assume "n \<le> 10000"
  then have "unat n \<le> 10007" by (simp add: word_le_nat_alt)
  from nearestPrime_value [OF prime_nat_10007 _ _ this]
  show "\<exists>r. nearestPrime n = Some r \<and> prime_nat (unat r) \<and> n \<le> r \<and>
           (n \<le> 1 \<longrightarrow> r = 2) \<and>
           (1 < n \<longrightarrow> odd r \<and> (\<forall>m. unat n \<le> m \<and> m < unat r \<and> odd m \<longrightarrow> \<not> prime_nat m))"
    by auto
qed (rule nearestPrime_1 nearestPrime_53)+

theorem C7_nearestPrime_witness:
  "(100 :: u32) \<le> 10000 \<and> (\<exists>r. nearestPrime 100 = Some r \<and> prime_nat (unat r) \<and> 100 \<le> r \<and> odd r)"
proof -
  have "(100 :: u32) \<le> 10000" "(1 :: u32) < 100"
    by (simp_all add: word_le_nat_alt word_less_nat_alt)
  with C7_nearestPrime_up_to_10000 [of 100] show ?thesis
    by blast
qed

text \<open>
  C8, as stated: for every bucket count \<open>s \<ge> 1\<close> with \<open>2s + 1\<close> in the range of a machine
  word, the scan of \<^verbatim>\<open>nearestPrime (2 * s + 1)\<close> ends with a prime above \<open>s\<close>. For
  \<open>s = 2^31 - 1\<close> the argument is \<open>2^32 - 1\<close>, a multiple of 3; the next candidate wraps
  around to 1, and the scan ends at 3.
\<close>

theorem C8_nearestPrime_wraps_at_top:
  "nearestPrime (2147483647 * 2 + 1) = Some 3 \<and> \<not> (2147483647 < (3 :: u32)) \<and>
   (1 :: u32) \<le> 2147483647 \<and> unat (2147483647 :: u32) * 2 + 1 < 2 ^ 32"
  by (simp add: nearestPrime_def nearestPrime_loop.simps isPrime_def word_le_nat_alt
      word_less_nat_alt unat_mod_distrib)

text \<open>
  C8, amended: the scan of \<^verbatim>\<open>nearestPrime (2 * s + 1)\<close> ends for every 32-bit \<open>s\<close>, with
  a value that \<^verbatim>\<open>isPrime\<close> accepts. For every \<open>s\<close> from 1 to 500000, and more generally
  whenever \<open>s \<ge> 1\<close> and some prime \<open>p\<close> lies between \<open>2s + 1\<close> and \<open>65531^2\<close> (below that
  bound \<open>i * i\<close> does not wrap in \<^verbatim>\<open>isPrime\<close>), the result is a prime above \<open>s\<close>, at
  least \<open>2s + 1\<close>.
\<close>

theorem C8_growth_finds_larger_prime:
  "(\<exists>r. nearestPrime (s * 2 + 1) = Some r \<and> isPrime r = Some True) \<and>
   (1 \<le> s \<and>
    (s \<le> 500000 \<or> prime_nat p \<and> p < 65531 * 65531 \<and> unat s * 2 + 1 \<le> p) \<longrightarrow>
      (\<exists>r. nearestPrime (s * 2 + 1) = Some r \<and> prime_nat (unat r) \<and> s < r \<and>
           unat s * 2 + 1 \<le> unat r))"
proof (intro conjI impI)
  show "\<exists>r. nearestPrime (s * 2 + 1) = Some r \<and> isPrime r = Some True"
    by (rule nearestPrime_terminates)
next
  assume a: "1 \<le> s \<and>
    (s \<le> 500000 \<or> prime_nat p \<and> p < 65531 * 65531 \<and> unat s * 2 + 1 \<le> p)"
  have "\<exists>q. prime_nat q \<and> q < 65531 * 65531 \<and> unat s * 2 + 1 \<le> q"
  proof (cases "s \<le> 500000")
    case True
    then have "unat s \<le> 500000" by (simp add: word_le_nat_alt)
    then have "unat s * 2 + 1 \<le> 1000003" by simp
    with prime_nat_1000003 show ?thesis by (intro exI [of _ 1000003]) simp
  next
    case False
    with a show ?thesis by blast
  qed
  then obtain q where q: "prime_nat q" "q < 65531 * 65531" "unat s * 2 + 1 \<le> q"
    by blast
  from a have "0 < unat s" by (simp add: word_le_nat_alt)
  with q have "2 < q" by simp
  with q have "odd q" by (simp add: prime_nat_odd)
  have small: "unat s * 2 + 1 < 2 ^ LENGTH(32)" using q by simp
  then have "unat s * unat (2 :: u32) < 2 ^ LENGTH(32)" by simp
  then have "unat (s * 2) = unat s * 2"
    by (simp add: unat_mult_lem [THEN iffD1])
  moreover from this small have "unat (s * 2) + unat (1 :: u32) < 2 ^ LENGTH(32)" by simp
  then have "unat (s * 2 + 1) = unat (s * 2) + 1"
    by (simp add: unat_add_lem [THEN iffD1])
  ultimately have u: "unat (s * 2 + 1) = unat s * 2 + 1" by simp
  with q have "unat (s * 2 + 1) \<le> q" by simp
  from nearestPrime_value [OF q(1) \<open>odd q\<close> q(2) this]
  obtain r where r: "nearestPrime (s * 2 + 1) = Some r" "s * 2 + 1 \<le> r"
    "prime_nat (unat r)"
    by blast
  from r(2) u have "unat s * 2 + 1 \<le> unat r" by (simp add: word_le_nat_alt)
  moreover from this have "s < r" by (simp add: word_less_nat_alt)
  ultimately show "\<exists>r. nearestPrime (s * 2 + 1) = Some r \<and> prime_nat (unat r) \<and> s < r \<and>
           unat s * 2 + 1 \<le> unat r"
    using r by blast
qed

theorem C8_growth_witness:
  "(1 :: u32) \<le> 53 \<and> (53 :: u32) \<le> 500000 \<and>
   (\<exists>r. nearestPrime (53 * 2 + 1) = Some r \<and> prime_nat (unat r) \<and> 53 < r)"
proof -
  have h: "(1 :: u32) \<le> 53" "(53 :: u32) \<le> 500000"
    by (simp_all add: word_le_nat_alt)
  with C8_growth_finds_larger_prime [of 53] show ?thesis
    by blast
qed

section \<open>The hash table\<close>

subsection \<open>Reading a bucket\<close>

lemma getSize_roundtrip: "word_of_int (getSize ht) = size_ht ht"
  by (simp add: getSize_def)

lemma plateHash_less: "0 < sz \<Longrightarrow> unat (plateHash plt sz) < unat sz"
  by (simp add: plateHash_def word_less_nat_alt [symmetric] word_mod_less_divisor)

lemma bucketIndex_less: "ht_wf ht \<Longrightarrow> bucketIndex ht plt < length (logs ht)"
  by (simp add: ht_wf_def bucketIndex_def plateHash_less)

lemma getLogAtIndex_wf:
  "length (logs h) = unat (size_ht h) \<Longrightarrow>
   getLogAtIndex (Some h) index = Some (if size_ht h \<le> index then [] else logs h ! unat index)"
  by (auto simp: getLogAtIndex_def word_le_nat_alt)

text \<open>
  C9. \<^verbatim>\<open>getLogAtIndex\<close> returns for every table pointer and every index, without a fault:
  \<^verbatim>\<open>NULL\<close> for a \<^verbatim>\<open>NULL\<close> table and for an index that is not below \<^verbatim>\<open>size\<close>, and the
  head of the chain stored at the index otherwise. A table that is not \<^verbatim>\<open>NULL\<close> has an
  array of \<^verbatim>\<open>size\<close> chain heads.
\<close>

theorem C9_getLogAtIndex_total:
  "getLogAtIndex None index = Some [] \<and>
   (length (logs h) = unat (size_ht h) \<longrightarrow>
      getLogAtIndex (Some h) index =
        Some (if size_ht h \<le> index then [] else logs h ! unat index))"
  by (simp add: getLogAtIndex_wf) (simp add: getLogAtIndex_def)

lemma newHashtable_wf: "ht_wf newHashtable"
  by (simp add: ht_wf_def newHashtable_def INITIAL_SIZE_def)

theorem C9_getLogAtIndex_witness:
  "length (logs newHashtable) = unat (size_ht newHashtable) \<and>
   getLogAtIndex (Some newHashtable) 52 = Some [] \<and>
   getLogAtIndex (Some newHashtable) 53 = Some [] \<and>
   getLogAtIndex (Some (newHashtable\<lparr>logs := (logs newHashtable)[52 := [newLog ''AA-00-00'' ''P'']]\<rparr>)) 52
     = Some [newLog ''AA-00-00'' ''P'']"
proof -
  let ?h = "newHashtable\<lparr>logs := (logs newHashtable)[52 := [newLog ''AA-00-00'' ''P'']]\<rparr>"
  have w: "length (logs newHashtable) = unat (size_ht newHashtable)"
    "length (logs ?h) = unat (size_ht ?h)"
    by (simp_all add: newHashtable_def INITIAL_SIZE_def)
  have "\<not> size_ht newHashtable \<le> 52" "size_ht newHashtable \<le> 53" "\<not> size_ht ?h \<le> 52"
    by (simp_all add: newHashtable_def INITIAL_SIZE_def word_le_nat_alt)
  moreover have "logs newHashtable ! unat (52 :: u32) = []" "logs ?h ! unat (52 :: u32) = [newLog ''AA-00-00'' ''P'']"
    by (simp_all add: newHashtable_def INITIAL_SIZE_def)
  ultimately show ?thesis
    using w C9_getLogAtIndex_total [of 52 newHashtable] C9_getLogAtIndex_total [of 53 newHashtable]
      C9_getLogAtIndex_total [of 52 ?h]
    by simp
qed

subsection \<open>Rehashing\<close>

lemma mset_concat_update:
  "i < length xs \<Longrightarrow> mset (concat (xs[i := ys])) + mset (xs ! i) = mset (concat xs) + mset ys"
proof (induction xs arbitrary: i)
  case Nil
  then show ?case by simp
next
  case (Cons x xs)
  then show ?case by (cases i) (auto simp: ac_simps)
qed

lemma rehashChain_spec:
  assumes "0 < newSize" "length newLogs = unat newSize"
  shows "\<exists>nl. rehashChain chain newSize newLogs = Some nl \<and> length nl = length newLogs \<and>
           mset (concat nl) = mset chain + mset (concat newLogs) \<and>
           (\<forall>j < length newLogs.
              nl ! j = rev (filter (\<lambda>l. unat (plateHash (plate l) newSize) = j) chain) @ newLogs ! j)"
  using assms(2)
proof (induction chain arbitrary: newLogs)
  case Nil
  then show ?case by simp
next
  case (Cons lg nextLog)
  let ?idx = "unat (plateHash (plate lg) newSize)"
  let ?nl1 = "newLogs[?idx := lg # newLogs ! ?idx]"
  have idx: "?idx < length newLogs"
    using assms(1) Cons.prems by (simp add: plateHash_less)
  have "length ?nl1 = unat newSize" using Cons.prems by simp
  from Cons.IH [OF this] obtain nl where nl: "rehashChain nextLog newSize ?nl1 = Some nl"
    "length nl = length ?nl1"
    "mset (concat nl) = mset nextLog + mset (concat ?nl1)"
    "\<forall>j < length ?nl1.
       nl ! j = rev (filter (\<lambda>l. unat (plateHash (plate l) newSize) = j) nextLog) @ ?nl1 ! j"
    by blast
  have "rehashChain (lg # nextLog) newSize newLogs = Some nl"
    using idx nl(1) by (simp add: Let_def)
  moreover have "length nl = length newLogs" using nl(2) by simp
  moreover have "mset (concat nl) = mset (lg # nextLog) + mset (concat newLogs)"
    using nl(3) mset_concat_update [OF idx, of "lg # newLogs ! ?idx"] by simp
  moreover have "\<forall>j < length newLogs.
      nl ! j = rev (filter (\<lambda>l. unat (plateHash (plate l) newSize) = j) (lg # nextLog)) @ newLogs ! j"
    using nl(4) idx by (auto simp: nth_list_update)
  ultimately show ?case by blast
qed


lemma unat_Suc_less: "i < (s :: u32) \<Longrightarrow> unat (i + 1) = Suc (unat i)"
proof -
  assume "i < s"
  then have "unat i < unat s" by (simp add: word_less_nat_alt)
  moreover have "unat s < 2 ^ LENGTH(32)" by (rule unsigned_less)
  ultimately have "unat i + unat (1 :: u32) < 2 ^ LENGTH(32)" by simp
  then show ?thesis by (simp add: unat_add_lem [THEN iffD1])
qed

lemma rehashAll_spec:
  assumes wf: "length (logs ht) = unat (size_ht ht)" and ns: "0 < newSize"
  shows "length newLogs = unat newSize \<Longrightarrow>
     \<exists>nl. rehashAll ht i newSize newLogs = Some nl \<and> length nl = length newLogs \<and>
       mset (concat nl) = mset (concat (drop (unat i) (logs ht))) + mset (concat newLogs) \<and>
       (\<forall>j < length newLogs.
          nl ! j = rev (filter (\<lambda>l. unat (plateHash (plate l) newSize) = j)
                          (concat (drop (unat i) (logs ht)))) @ newLogs ! j)"
proof (induction "unat (size_ht ht) - unat i" arbitrary: i newLogs rule: less_induct)
  case less
  show ?case
  proof (cases "i < size_ht ht")
    case False
    then have "length (logs ht) \<le> unat i"
      using wf by (simp add: word_less_nat_alt)
    with False show ?thesis
      by (subst rehashAll.simps) simp
  next
    case True
    then have ui: "unat i < length (logs ht)"
      using wf by (simp add: word_less_nat_alt)
    have suc: "unat (i + 1) = Suc (unat i)"
      using True by (rule unat_Suc_less)
    from True have "\<not> size_ht ht \<le> i" by (simp add: linorder_not_le)
    then have get: "getLogAtIndex (Some ht) i = Some (logs ht ! unat i)"
      by (simp add: getLogAtIndex_wf [OF wf])
    let ?P = "\<lambda>j l. unat (plateHash (plate l) newSize) = j"
    from rehashChain_spec [OF ns less.prems, of "logs ht ! unat i"]
    obtain nl1 where nl1: "rehashChain (logs ht ! unat i) newSize newLogs = Some nl1"
      "length nl1 = length newLogs"
      "mset (concat nl1) = mset (logs ht ! unat i) + mset (concat newLogs)"
      "\<forall>j < length newLogs. nl1 ! j = rev (filter (?P j) (logs ht ! unat i)) @ newLogs ! j"
      by blast
    have "\<exists>nl. rehashAll ht (i + 1) newSize nl1 = Some nl \<and> length nl = length nl1 \<and>
       mset (concat nl) = mset (concat (drop (unat (i + 1)) (logs ht))) + mset (concat nl1) \<and>
       (\<forall>j < length nl1.
          nl ! j = rev (filter (?P j) (concat (drop (unat (i + 1)) (logs ht)))) @ nl1 ! j)"
    proof (rule less.hyps)
      show "unat (size_ht ht) - unat (i + 1) < unat (size_ht ht) - unat i"
        using ui wf suc by simp
      show "length nl1 = unat newSize" using nl1(2) less.prems by simp
    qed
    then obtain nl where nl: "rehashAll ht (i + 1) newSize nl1 = Some nl" "length nl = length nl1"
      "mset (concat nl) = mset (concat (drop (Suc (unat i)) (logs ht))) + mset (concat nl1)"
      "\<forall>j < length nl1.
          nl ! j = rev (filter (?P j) (concat (drop (Suc (unat i)) (logs ht)))) @ nl1 ! j"
      unfolding suc by blast
    have "rehashAll ht i newSize newLogs = Some nl"
      using True get nl1(1) nl(1) by (subst rehashAll.simps) simp
    moreover have "length nl = length newLogs" using nl(2) nl1(2) by simp
    moreover have "mset (concat nl) = mset (concat (drop (unat i) (logs ht))) + mset (concat newLogs)"
      using nl(3) nl1(3) by (simp add: Cons_nth_drop_Suc [OF ui, symmetric])
    moreover have "\<forall>j < length newLogs.
          nl ! j = rev (filter (?P j) (concat (drop (unat i) (logs ht)))) @ newLogs ! j"
      using nl(4) nl1(2,4) by (simp add: Cons_nth_drop_Suc [OF ui, symmetric])
    ultimately show ?thesis by blast
  qed
qed

lemma resizeHashtable_spec:
  assumes "ht_wf ht"
  shows "\<exists>newSize nl. nearestPrime (size_ht ht * 2 + 1) = Some newSize \<and>
           isPrime newSize = Some True \<and>
           resizeHashtable ht = Some (ht\<lparr>logs := nl, size_ht := newSize\<rparr>) \<and>
           length nl = unat newSize \<and>
           mset (concat nl) = mset (concat (logs ht)) \<and>
           (\<forall>j < unat newSize.
              nl ! j = rev (filter (\<lambda>l. unat (plateHash (plate l) newSize) = j)
                              (concat (logs ht))))"
proof -
  from nearestPrime_terminates obtain newSize where
    ns: "nearestPrime (size_ht ht * 2 + 1) = Some newSize" "isPrime newSize = Some True"
    by blast
  then have pos: "0 < newSize"
    using isPrime_True_gt_1 [of newSize] by (simp add: word_less_nat_alt)
  have wf: "length (logs ht) = unat (size_ht ht)"
    using assms by (simp add: ht_wf_def)
  have "length (replicate (unat newSize) ([] :: Log list)) = unat newSize" by simp
  from rehashAll_spec [OF wf pos this, of 0]
  obtain nl where nl: "rehashAll ht 0 newSize (replicate (unat newSize) []) = Some nl"
    "length nl = unat newSize"
    "mset (concat nl) = mset (concat (logs ht))"
    "\<forall>j < unat newSize. nl ! j = rev (filter (\<lambda>l. unat (plateHash (plate l) newSize) = j)
                              (concat (logs ht)))"
    by auto
  have "resizeHashtable ht = Some (ht\<lparr>logs := nl, size_ht := newSize\<rparr>)"
    using ns(1) nl(1) by (simp add: resizeHashtable_def)
  with ns nl(2,3,4) show ?thesis by blast
qed

lemma filter_concat_bucket:
  "i < length xs \<Longrightarrow> (\<forall>k < length xs. k \<noteq> i \<longrightarrow> (\<forall>l \<in> set (xs ! k). \<not> Q l)) \<Longrightarrow>
   filter Q (concat xs) = filter Q (xs ! i)"
proof (induction xs arbitrary: i)
  case Nil
  then show ?case by simp
next
  case (Cons x xs)
  show ?case
  proof (cases i)
    case 0
    have "\<forall>l \<in> set (concat xs). \<not> Q l"
    proof
      fix l assume "l \<in> set (concat xs)"
      then obtain ys where "ys \<in> set xs" "l \<in> set ys"
        by auto
      then obtain k where "k < length xs" "l \<in> set (xs ! k)"
        by (auto simp: in_set_conv_nth)
      with Cons.prems(2) [rule_format, of "Suc k"] 0 show "\<not> Q l" by auto
    qed
    then have "filter Q (concat xs) = []" by (simp add: filter_empty_conv)
    with 0 show ?thesis by simp
  next
    case (Suc i')
    from Cons.prems(2) [rule_format, of 0] Suc have "filter Q x = []"
      by (auto simp: filter_empty_conv)
    moreover have "filter Q (concat xs) = filter Q (xs ! i')"
    proof (rule Cons.IH)
      show "i' < length xs" using Cons.prems(1) Suc by simp
      show "\<forall>k < length xs. k \<noteq> i' \<longrightarrow> (\<forall>l \<in> set (xs ! k). \<not> Q l)"
        using Cons.prems(2) Suc by (metis Suc_less_eq length_Cons nat.inject nth_Cons_Suc)
    qed
    ultimately show ?thesis using Suc by simp
  qed
qed

lemma resizeHashtable_ok:
  assumes "ht_wf ht"
  shows "\<exists>ht'. resizeHashtable ht = Some ht' \<and> ht_wf ht' \<and> bucket_ok ht' \<and>
           isPrime (size_ht ht') = Some True \<and>
           nearestPrime (size_ht ht * 2 + 1) = Some (size_ht ht') \<and>
           numElements ht' = numElements ht \<and>
           mset (concat (logs ht')) = mset (concat (logs ht)) \<and>
           (\<forall>j < unat (size_ht ht').
              logs ht' ! j = rev (filter (\<lambda>l. bucketIndex ht' (plate l) = j) (concat (logs ht))))"
proof -
  from resizeHashtable_spec [OF assms] obtain newSize nl where
    r: "nearestPrime (size_ht ht * 2 + 1) = Some newSize" "isPrime newSize = Some True"
      "resizeHashtable ht = Some (ht\<lparr>logs := nl, size_ht := newSize\<rparr>)"
      "length nl = unat newSize" "mset (concat nl) = mset (concat (logs ht))"
      "\<forall>j < unat newSize.
         nl ! j = rev (filter (\<lambda>l. unat (plateHash (plate l) newSize) = j) (concat (logs ht)))"
    by blast
  let ?ht' = "ht\<lparr>logs := nl, size_ht := newSize\<rparr>"
  have "0 < newSize" using isPrime_True_gt_1 [OF r(2)] by (simp add: word_less_nat_alt)
  then have "ht_wf ?ht'" using r(4) by (simp add: ht_wf_def)
  moreover have "bucket_ok ?ht'"
    using r(4,6) by (auto simp: bucket_ok_def bucketIndex_def)
  ultimately show ?thesis
    using r by (auto simp: bucketIndex_def)
qed

subsection \<open>Inserting\<close>

lemma addLogToTable_unfold:
  fixes ht :: Hashtable and lg :: Log
  assumes "ht_wf ht"
  defines "idx \<equiv> bucketIndex ht (plate lg)"
  defines "ht1 \<equiv> ht\<lparr>numElements := numElements ht + 1\<rparr>"
  shows "addLogToTable ht lg =
     (if logs ht ! idx = [] then Some (ht1\<lparr>logs := (logs ht)[idx := [lg]]\<rparr>)
      else if loadExceeded (ht1\<lparr>logs := (logs ht)[idx := logs ht ! idx @ [lg]]\<rparr>)
           then resizeHashtable (ht1\<lparr>logs := (logs ht)[idx := logs ht ! idx @ [lg]]\<rparr>)
           else Some (ht1\<lparr>logs := (logs ht)[idx := logs ht ! idx @ [lg]]\<rparr>))"
proof -
  have gs: "word_of_int (getSize ht1) = size_ht ht"
    by (simp add: ht1_def getSize_def)
  have lt: "idx < length (logs ht)"
    using assms(1) by (simp add: idx_def bucketIndex_less)
  have "\<not> size_ht ht \<le> plateHash (plate lg) (size_ht ht)"
    using assms(1) by (simp add: ht_wf_def plateHash_def word_mod_less_divisor linorder_not_le)
  then have "getLogAtIndex (Some ht1) (plateHash (plate lg) (size_ht ht)) = Some (logs ht ! idx)"
    using assms(1) by (simp add: getLogAtIndex_wf ht_wf_def ht1_def idx_def bucketIndex_def)
  then show ?thesis
    using lt unfolding addLogToTable_def Let_def gs ht1_def [symmetric]
    by (simp add: idx_def bucketIndex_def ht1_def)
qed

lemma bucket_ok_update:
  assumes "ht_wf ht" "bucket_ok ht"
    and "set chain \<subseteq> insert lg (set (logs ht ! bucketIndex ht (plate lg)))"
  shows "bucket_ok (ht\<lparr>numElements := n, logs := (logs ht)[bucketIndex ht (plate lg) := chain]\<rparr>)"
  unfolding bucket_ok_def
proof (intro allI impI ballI)
  let ?idx = "bucketIndex ht (plate lg)"
  let ?ht' = "ht\<lparr>numElements := n, logs := (logs ht)[?idx := chain]\<rparr>"
  fix i l
  assume i: "i < length (logs ?ht')" and l: "l \<in> set (logs ?ht' ! i)"
  have same: "bucketIndex ?ht' p = bucketIndex ht p" for p
    by (simp add: bucketIndex_def)
  show "bucketIndex ?ht' (plate l) = i"
  proof (cases "i = ?idx")
    case True
    with i l have "l \<in> set chain" by simp
    with assms(3) have "l = lg \<or> l \<in> set (logs ht ! ?idx)" by auto
    with assms(2) i True show ?thesis
      by (auto simp: same bucket_ok_def)
  next
    case False
    with i l have "l \<in> set (logs ht ! i)" by simp
    with assms(2) i show ?thesis
      by (auto simp: same bucket_ok_def)
  qed
qed

lemma addLogToTable_ok:
  assumes "ht_wf ht"
  shows "\<exists>ht'. addLogToTable ht lg = Some ht' \<and> ht_wf ht' \<and>
           numElements ht' = numElements ht + 1 \<and>
           mset (concat (logs ht')) = add_mset lg (mset (concat (logs ht))) \<and>
           (bucket_ok ht \<longrightarrow> bucket_ok ht')"
proof -
  let ?idx = "bucketIndex ht (plate lg)"
  let ?ht1 = "ht\<lparr>numElements := numElements ht + 1\<rparr>"
  have lt: "?idx < length (logs ht)"
    using assms by (rule bucketIndex_less)
  have ms: "mset (concat ((logs ht)[?idx := logs ht ! ?idx @ [lg]])) = add_mset lg (mset (concat (logs ht)))"
    using mset_concat_update [OF lt, of "logs ht ! ?idx @ [lg]"] by simp
  show ?thesis
  proof (cases "logs ht ! ?idx = []")
    case True
    let ?ht' = "?ht1\<lparr>logs := (logs ht)[?idx := [lg]]\<rparr>"
    have "addLogToTable ht lg = Some ?ht'"
      using True by (simp add: addLogToTable_unfold [OF assms])
    moreover have "ht_wf ?ht'" using assms by (simp add: ht_wf_def)
    moreover have "mset (concat (logs ?ht')) = add_mset lg (mset (concat (logs ht)))"
      using ms True by simp
    moreover have "bucket_ok ?ht'" if "bucket_ok ht"
      using bucket_ok_update [OF assms that, of "[lg]" lg] by simp
    ultimately show ?thesis by simp
  next
    case False
    let ?ht2 = "?ht1\<lparr>logs := (logs ht)[?idx := logs ht ! ?idx @ [lg]]\<rparr>"
    have wf2: "ht_wf ?ht2" using assms by (simp add: ht_wf_def)
    have ok2: "bucket_ok ?ht2" if "bucket_ok ht"
      using bucket_ok_update [OF assms that, of "logs ht ! ?idx @ [lg]" lg] by auto
    show ?thesis
    proof (cases "loadExceeded ?ht2")
      case True
      from resizeHashtable_ok [OF wf2] obtain ht' where
        "resizeHashtable ?ht2 = Some ht'" "ht_wf ht'" "bucket_ok ht'"
        "numElements ht' = numElements ?ht2"
        "mset (concat (logs ht')) = mset (concat (logs ?ht2))"
        by blast
      moreover have "addLogToTable ht lg = resizeHashtable ?ht2"
        using False True by (simp add: addLogToTable_unfold [OF assms])
      ultimately show ?thesis using ms by simp
    next
      case nex: False
      have "addLogToTable ht lg = Some ?ht2"
        using False nex by (simp add: addLogToTable_unfold [OF assms])
      with wf2 ok2 ms show ?thesis by simp
    qed
  qed
qed

lemma addLogsToTable_ok:
  "ht_wf ht \<Longrightarrow> \<exists>ht'. addLogsToTable ht ls = Some ht' \<and> ht_wf ht' \<and>
      mset (concat (logs ht')) = mset ls + mset (concat (logs ht)) \<and>
      (bucket_ok ht \<longrightarrow> bucket_ok ht')"
proof (induction ls arbitrary: ht)
  case Nil
  then show ?case by simp
next
  case (Cons lg ls)
  from addLogToTable_ok [OF Cons.prems, of lg] obtain ht1 where
    h1: "addLogToTable ht lg = Some ht1" "ht_wf ht1"
      "mset (concat (logs ht1)) = add_mset lg (mset (concat (logs ht)))"
      "bucket_ok ht \<longrightarrow> bucket_ok ht1"
    by blast
  from Cons.IH [OF h1(2)] obtain ht' where
    h': "addLogsToTable ht1 ls = Some ht'" "ht_wf ht'"
      "mset (concat (logs ht')) = mset ls + mset (concat (logs ht1))"
      "bucket_ok ht1 \<longrightarrow> bucket_ok ht'"
    by blast
  show ?case using h1 h' by simp
qed

lemma bucket_ok_new: "bucket_ok newHashtable"
  by (auto simp: bucket_ok_def newHashtable_def)

subsection \<open>The order of a rehashed chain\<close>

text \<open>
  C3, as stated: after \<^verbatim>\<open>resizeHashtable\<close>, two logs of one source chain that land in the
  same new bucket keep the relative order they had. Two logs of one plate, inserted one
  after the other, stand in insertion order before the resize and in the opposite
  order after it.
\<close>

theorem C3_resize_reverses_chain:
  "Option.bind (addLogsToTable newHashtable
        [mkLog ''AA-00-00'' ''ParkA'' 8 9, mkLog ''AA-00-00'' ''ParkA'' 10 11])
      (chainOfPlate ''AA-00-00'')
     = Some [mkLog ''AA-00-00'' ''ParkA'' 8 9, mkLog ''AA-00-00'' ''ParkA'' 10 11]
   \<and> Option.bind (Option.bind (addLogsToTable newHashtable
        [mkLog ''AA-00-00'' ''ParkA'' 8 9, mkLog ''AA-00-00'' ''ParkA'' 10 11]) resizeHashtable)
      (chainOfPlate ''AA-00-00'')
     = Some [mkLog ''AA-00-00'' ''ParkA'' 10 11, mkLog ''AA-00-00'' ''ParkA'' 8 9]"
  by code_simp

text \<open>
  C3, amended: the loop pushes each node on the front of its new bucket, so the logs of
  source chain \<open>i\<close> that land in new bucket \<open>j\<close> stand there in the reverse of their
  order in chain \<open>i\<close>. (The logs of chain \<open>i\<close> are those whose plate hashes to \<open>i\<close>
  under the old size.)
\<close>

theorem C3_resize_reverse_relative_order:
  "ht_wf ht \<and> bucket_ok ht \<longrightarrow>
     (\<exists>ht'. resizeHashtable ht = Some ht' \<and>
        (\<forall>i < length (logs ht). \<forall>j < length (logs ht').
           filter (\<lambda>l. bucketIndex ht (plate l) = i) (logs ht' ! j) =
           rev (filter (\<lambda>l. bucketIndex ht' (plate l) = j) (logs ht ! i))))"
proof
  assume a: "ht_wf ht \<and> bucket_ok ht"
  from resizeHashtable_ok [of ht] a obtain ht' where
    r: "resizeHashtable ht = Some ht'" "ht_wf ht'"
      "\<forall>j < unat (size_ht ht').
         logs ht' ! j = rev (filter (\<lambda>l. bucketIndex ht' (plate l) = j) (concat (logs ht)))"
    by blast
  have "filter (\<lambda>l. bucketIndex ht (plate l) = i) (logs ht' ! j) =
        rev (filter (\<lambda>l. bucketIndex ht' (plate l) = j) (logs ht ! i))"
    if i: "i < length (logs ht)" and j: "j < length (logs ht')" for i j
  proof -
    let ?Q = "\<lambda>l. bucketIndex ht (plate l) = i"
    let ?P = "\<lambda>l. bucketIndex ht' (plate l) = j"
    have "filter ?Q (concat (logs ht)) = filter ?Q (logs ht ! i)"
      using i a by (intro filter_concat_bucket) (auto simp: bucket_ok_def)
    also have "\<dots> = logs ht ! i"
      using i a by (auto simp: bucket_ok_def filter_id_conv)
    finally have q: "filter ?Q (concat (logs ht)) = logs ht ! i" .
    have "logs ht' ! j = rev (filter ?P (concat (logs ht)))"
      using r(2,3) j by (simp add: ht_wf_def)
    then have "filter ?Q (logs ht' ! j) = rev (filter ?P (filter ?Q (concat (logs ht))))"
      by (simp add: rev_filter [symmetric] conj_commute)
    with q show ?thesis by simp
  qed
  with r(1) show "\<exists>ht'. resizeHashtable ht = Some ht' \<and>
        (\<forall>i < length (logs ht). \<forall>j < length (logs ht').
           filter (\<lambda>l. bucketIndex ht (plate l) = i) (logs ht' ! j) =
           rev (filter (\<lambda>l. bucketIndex ht' (plate l) = j) (logs ht ! i)))"
    by blast
qed

lemma twoLogTable_built:
  "addLogsToTable newHashtable
     [mkLog ''AA-00-00'' ''ParkA'' 8 9, mkLog ''AA-00-00'' ''ParkA'' 10 11] = Some twoLogTable"
  by code_simp

lemma twoLogTable_ok: "ht_wf twoLogTable \<and> bucket_ok twoLogTable"
  using addLogsToTable_ok [OF newHashtable_wf,
      of "[mkLog ''AA-00-00'' ''ParkA'' 8 9, mkLog ''AA-00-00'' ''ParkA'' 10 11]"]
  by (simp only: twoLogTable_built) (simp add: bucket_ok_new)

theorem C3_resize_reverse_witness:
  "ht_wf twoLogTable \<and> bucket_ok twoLogTable \<and>
   (\<exists>ht'. resizeHashtable twoLogTable = Some ht' \<and>
      (\<forall>i < length (logs twoLogTable). \<forall>j < length (logs ht').
         filter (\<lambda>l. bucketIndex twoLogTable (plate l) = i) (logs ht' ! j) =
         rev (filter (\<lambda>l. bucketIndex ht' (plate l) = j) (logs twoLogTable ! i))))"
  using C3_resize_reverse_relative_order [of twoLogTable] twoLogTable_ok by blast

subsection \<open>The stored logs and their buckets\<close>

text \<open>
  C5. \<^verbatim>\<open>resizeHashtable\<close> returns, and keeps the stored logs as a multiset: none is
  dropped and none is duplicated. After it, and after \<^verbatim>\<open>addLogToTable\<close> on a table
  whose logs are in their buckets, every log reachable from bucket \<open>i\<close> has a plate that
  hashes to \<open>i\<close> under the current size; so it is in every table built from
  \<^verbatim>\<open>newHashtable\<close> by inserts, which holds exactly the logs inserted.
\<close>

theorem C5_growth_and_insert_keep_records_in_their_buckets:
  "(ht_wf ht \<longrightarrow>
      (\<exists>ht'. resizeHashtable ht = Some ht' \<and> ht_wf ht' \<and> bucket_ok ht' \<and>
          mset (concat (logs ht')) = mset (concat (logs ht))) \<and>
      (bucket_ok ht \<longrightarrow>
         (\<exists>ht'. addLogToTable ht lg = Some ht' \<and> ht_wf ht' \<and> bucket_ok ht' \<and>
             mset (concat (logs ht')) = add_mset lg (mset (concat (logs ht)))))) \<and>
   (\<exists>t. addLogsToTable newHashtable ls = Some t \<and> ht_wf t \<and> bucket_ok t \<and>
        mset (concat (logs t)) = mset ls)"
proof (intro conjI impI)
  assume "ht_wf ht"
  from resizeHashtable_ok [OF this]
  show "\<exists>ht'. resizeHashtable ht = Some ht' \<and> ht_wf ht' \<and> bucket_ok ht' \<and>
          mset (concat (logs ht')) = mset (concat (logs ht))"
    by blast
next
  assume "ht_wf ht" "bucket_ok ht"
  with addLogToTable_ok [of ht lg]
  show "\<exists>ht'. addLogToTable ht lg = Some ht' \<and> ht_wf ht' \<and> bucket_ok ht' \<and>
             mset (concat (logs ht')) = add_mset lg (mset (concat (logs ht)))"
    by blast
next
  have "concat (logs newHashtable) = []"
    by (simp add: newHashtable_def)
  with addLogsToTable_ok [OF newHashtable_wf, of ls] bucket_ok_new
  show "\<exists>t. addLogsToTable newHashtable ls = Some t \<and> ht_wf t \<and> bucket_ok t \<and>
        mset (concat (logs t)) = mset ls"
    by auto
qed

theorem C5_growth_and_insert_witness:
  "ht_wf twoLogTable \<and> bucket_ok twoLogTable \<and>
   (\<exists>ht'. resizeHashtable twoLogTable = Some ht' \<and> ht_wf ht' \<and> bucket_ok ht' \<and>
       mset (concat (logs ht')) = mset (concat (logs twoLogTable))) \<and>
   (\<exists>ht'. addLogToTable twoLogTable (mkLog ''BB-00-00'' ''ParkA'' 12 13) = Some ht' \<and>
       ht_wf ht' \<and> bucket_ok ht' \<and>
       mset (concat (logs ht')) =
         add_mset (mkLog ''BB-00-00'' ''ParkA'' 12 13) (mset (concat (logs twoLogTable))))"
  using C5_growth_and_insert_keep_records_in_their_buckets
          [of twoLogTable "mkLog ''BB-00-00'' ''ParkA'' 12 13" "[]"]
    twoLogTable_ok
  by blast

subsection \<open>Where an inserted log ends up\<close>

lemma chainOfPlate_wf:
  assumes "ht_wf ht"
  shows "chainOfPlate plt ht = Some (logs ht ! bucketIndex ht plt)"
proof -
  have "plateHash plt (size_ht ht) < size_ht ht"
    using assms by (simp add: ht_wf_def plateHash_def word_mod_less_divisor)
  then have "\<not> size_ht ht \<le> plateHash plt (size_ht ht)"
    by (simp add: linorder_not_le)
  then show ?thesis
    using assms by (simp add: chainOfPlate_def getLogAtIndex_wf ht_wf_def bucketIndex_def)
qed

text \<open>
  C10, as stated: \<^verbatim>\<open>addLogToTable\<close> leaves the new log at the head of its bucket when
  the bucket was empty and at the end of the chain otherwise. The fortieth insert of
  one plate into a fresh table finds a chain of 39 logs, appends, exceeds the load
  factor and resizes; the rehash leaves the new log at the head of its chain.
\<close>

theorem C10_growing_insert_does_not_append:
  "Option.bind (addLogsToTable newHashtable (replicate 39 (enterLog ''AA-00-00'' ''ParkA'' 8)))
      (chainOfPlate ''AA-00-00'')
     = Some (replicate 39 (enterLog ''AA-00-00'' ''ParkA'' 8))
   \<and> Option.bind (addLogsToTable newHashtable
        (replicate 39 (enterLog ''AA-00-00'' ''ParkA'' 8) @ [enterLog ''AA-00-00'' ''ParkA'' 9]))
      (chainOfPlate ''AA-00-00'')
     = Some (enterLog ''AA-00-00'' ''ParkA'' 9 # replicate 39 (enterLog ''AA-00-00'' ''ParkA'' 8))
   \<and> enterLog ''AA-00-00'' ''ParkA'' 9 # replicate 39 (enterLog ''AA-00-00'' ''ParkA'' 8)
     \<noteq> replicate 39 (enterLog ''AA-00-00'' ''ParkA'' 8) @ [enterLog ''AA-00-00'' ''ParkA'' 9]"
  by code_simp

text \<open>
  C10, amended: \<^verbatim>\<open>addLogToTable\<close> checks nothing about the plate. On every well-formed
  table and for every log it returns, and the log is then reachable in the chain of the
  bucket of its plate: alone if the bucket was empty, and at the end of the former
  chain unless the incremented element count exceeds the load factor (then the table
  is resized and the chains are rebuilt). An open log of the same plate in the table
  changes nothing.
\<close>

theorem C10_insert_unconditional:
  "ht_wf ht \<longrightarrow>
     (\<exists>ht' chain chain'.
        addLogToTable ht lg = Some ht' \<and>
        chainOfPlate (plate lg) ht = Some chain \<and>
        chainOfPlate (plate lg) ht' = Some chain' \<and>
        lg \<in> set chain' \<and>
        (chain = [] \<longrightarrow> chain' = [lg]) \<and>
        (\<not> loadExceeded (ht\<lparr>numElements := numElements ht + 1\<rparr>) \<longrightarrow> chain' = chain @ [lg]))"
proof
  assume wf: "ht_wf ht"
  let ?idx = "bucketIndex ht (plate lg)"
  let ?ht1 = "ht\<lparr>numElements := numElements ht + 1\<rparr>"
  let ?chain = "logs ht ! ?idx"
  have lt: "?idx < length (logs ht)" using wf by (rule bucketIndex_less)
  from addLogToTable_ok [OF wf, of lg] obtain ht' where
    h: "addLogToTable ht lg = Some ht'" "ht_wf ht'"
       "mset (concat (logs ht')) = add_mset lg (mset (concat (logs ht)))"
    by blast
  have c: "chainOfPlate (plate lg) ht = Some ?chain"
    using wf by (rule chainOfPlate_wf)
  have c': "chainOfPlate (plate lg) ht' = Some (logs ht' ! bucketIndex ht' (plate lg))"
    using h(2) by (rule chainOfPlate_wf)
  have ex: "loadExceeded (?ht1\<lparr>logs := xs\<rparr>) = loadExceeded ?ht1" for xs
    by (simp add: loadExceeded_def getSize_def)
  have head: "logs ht' ! bucketIndex ht' (plate lg) = [lg]" if "?chain = []"
    using that h(1) lt by (simp add: addLogToTable_unfold [OF wf] bucketIndex_def) auto
  have app: "logs ht' ! bucketIndex ht' (plate lg) = ?chain @ [lg]" if "\<not> loadExceeded ?ht1"
    using that h(1) lt by (auto simp: addLogToTable_unfold [OF wf] bucketIndex_def ex split: if_splits)
  have mem: "lg \<in> set (logs ht' ! bucketIndex ht' (plate lg))"
  proof (cases "?chain = [] \<or> \<not> loadExceeded ?ht1")
    case True
    with head app show ?thesis by auto
  next
    case False
    let ?ht2 = "?ht1\<lparr>logs := (logs ht)[?idx := ?chain @ [lg]]\<rparr>"
    have wf2: "ht_wf ?ht2" using wf by (simp add: ht_wf_def)
    from False have "addLogToTable ht lg = resizeHashtable ?ht2"
      by (simp add: addLogToTable_unfold [OF wf] ex)
    with h(1) resizeHashtable_ok [OF wf2] have
      r: "\<forall>j < unat (size_ht ht').
         logs ht' ! j = rev (filter (\<lambda>l. bucketIndex ht' (plate l) = j) (concat (logs ?ht2)))"
      by auto
    have "lg \<in> set (concat (logs ?ht2))"
      using lt by (auto simp: set_conv_nth [of "(logs ht)[?idx := ?chain @ [lg]]"] nth_list_update
          intro!: exI [of _ "?chain @ [lg]"] exI [of _ ?idx])
    moreover have "bucketIndex ht' (plate lg) < unat (size_ht ht')"
      using bucketIndex_less [OF h(2)] h(2) by (simp add: ht_wf_def)
    ultimately show ?thesis using r by simp
  qed
  show "\<exists>ht' chain chain'.
        addLogToTable ht lg = Some ht' \<and>
        chainOfPlate (plate lg) ht = Some chain \<and>
        chainOfPlate (plate lg) ht' = Some chain' \<and>
        lg \<in> set chain' \<and>
        (chain = [] \<longrightarrow> chain' = [lg]) \<and>
        (\<not> loadExceeded (ht\<lparr>numElements := numElements ht + 1\<rparr>) \<longrightarrow> chain' = chain @ [lg])"
    using h(1) c c' mem head app by blast
qed

theorem C10_insert_unconditional_witness:
  "ht_wf oneOpenTable \<and>
   \<not> loadExceeded (oneOpenTable\<lparr>numElements := numElements oneOpenTable + 1\<rparr>) \<and>
   isOpenFor ''AA-00-00'' (enterLog ''AA-00-00'' ''ParkA'' 8) \<and>
   isOpenFor ''AA-00-00'' (newLog ''AA-00-00'' ''ParkA'') \<and>
   chainOfPlate ''AA-00-00'' oneOpenTable = Some [enterLog ''AA-00-00'' ''ParkA'' 8] \<and>
   (\<exists>ht'. addLogToTable oneOpenTable (newLog ''AA-00-00'' ''ParkA'') = Some ht' \<and>
      chainOfPlate ''AA-00-00'' ht' =
        Some [enterLog ''AA-00-00'' ''ParkA'' 8, newLog ''AA-00-00'' ''ParkA''])"
proof -
  have wf: "ht_wf oneOpenTable"
    by (simp add: ht_wf_def oneOpenTable_def newHashtable_def INITIAL_SIZE_def)
  have le: "\<not> loadExceeded (oneOpenTable\<lparr>numElements := numElements oneOpenTable + 1\<rparr>)"
    by (simp add: loadExceeded_def oneOpenTable_def newHashtable_def INITIAL_SIZE_def
        getSize_def LOAD_FACTOR_THRESHOLD_def)
  have op: "isOpenFor ''AA-00-00'' (enterLog ''AA-00-00'' ''ParkA'' 8)"
    "isOpenFor ''AA-00-00'' (newLog ''AA-00-00'' ''ParkA'')"
    by (simp_all add: isOpenFor_def enterLog_def newLog_def isInitialTimestamp_def
        compareTimestamps_def compareDate_def)
  have ch: "chainOfPlate ''AA-00-00'' oneOpenTable = Some [enterLog ''AA-00-00'' ''ParkA'' 8]"
    by code_simp
  have pl: "plate (newLog ''AA-00-00'' ''ParkA'') = ''AA-00-00''"
    by (simp add: newLog_def)
  from C10_insert_unconditional [of oneOpenTable "newLog ''AA-00-00'' ''ParkA''"] wf le ch
  have "\<exists>ht'. addLogToTable oneOpenTable (newLog ''AA-00-00'' ''ParkA'') = Some ht' \<and>
      chainOfPlate ''AA-00-00'' ht' =
        Some [enterLog ''AA-00-00'' ''ParkA'' 8, newLog ''AA-00-00'' ''ParkA'']"
    unfolding pl by auto
  with wf le op ch show ?thesis by blast
qed

subsection \<open>The open log of a plate\<close>

text \<open>
  C4, as stated: after any sequence of inserts \<^verbatim>\<open>getPlateLastLogWithoutExit\<close> returns
  the most recently inserted open log of the plate. After two open logs of one plate it
  returns the one inserted first.
\<close>

theorem C4_first_open_log_is_returned:
  "Option.bind (addLogsToTable newHashtable
        [enterLog ''AA-00-00'' ''ParkA'' 8, enterLog ''AA-00-00'' ''ParkA'' 9])
      (find_open_entry ''AA-00-00'')
     = Some (Some (enterLog ''AA-00-00'' ''ParkA'' 8))
   \<and> mostRecentOpen ''AA-00-00''
        [enterLog ''AA-00-00'' ''ParkA'' 8, enterLog ''AA-00-00'' ''ParkA'' 9]
     = Some (enterLog ''AA-00-00'' ''ParkA'' 9)
   \<and> enterLog ''AA-00-00'' ''ParkA'' 8 \<noteq> enterLog ''AA-00-00'' ''ParkA'' 9"
  by code_simp

lemma strcmp_0_iff: "strcmp a b = 0 \<longleftrightarrow> a = b"
  by (induction a b rule: strcmp.induct) auto

lemma lastLogWithoutExit_loop_eq:
  "lastLogWithoutExit_loop chain plt = dropWhile (\<lambda>l. \<not> isOpenFor plt l) chain"
  by (induction chain) (simp_all add: isOpenFor_def strcmp_0_iff)

lemma headLog_dropWhile: "headLog (dropWhile (\<lambda>l. \<not> P l) xs) = List.find P xs"
  by (induction xs) (simp_all add: headLog_def)

lemma find_filter: "List.find P xs = (case filter P xs of [] \<Rightarrow> None | x # _ \<Rightarrow> Some x)"
  by (induction xs) simp_all

lemma find_open_entry_wf:
  assumes "ht_wf ht"
  shows "find_open_entry plt ht = Some (List.find (isOpenFor plt) (logs ht ! bucketIndex ht plt))"
proof -
  have "getLogAtIndex (Some ht) (plateHash plt (word_of_int (getSize ht))) =
        Some (logs ht ! bucketIndex ht plt)"
    using chainOfPlate_wf [OF assms, of plt]
    by (simp add: chainOfPlate_def getSize_roundtrip)
  then show ?thesis
    by (simp add: find_open_entry_def getPlateLastLogWithoutExit_def
        lastLogWithoutExit_loop_eq headLog_dropWhile)
qed

text \<open>
  C4, amended: after every sequence of inserts \<^verbatim>\<open>getPlateLastLogWithoutExit\<close> returns
  the first log in the chain of the plate's bucket that has this plate and no exit (and
  \<^verbatim>\<open>NULL\<close> if there is none); when at most one open log of the plate was inserted, that
  is the most recently inserted open log of the plate.
\<close>

theorem C4_find_open_entry:
  "\<exists>t chain. addLogsToTable newHashtable ls = Some t \<and>
      chainOfPlate plt t = Some chain \<and>
      find_open_entry plt t = Some (List.find (isOpenFor plt) chain) \<and>
      (length (filter (isOpenFor plt) ls) \<le> 1 \<longrightarrow>
         find_open_entry plt t = Some (mostRecentOpen plt ls))"
proof -
  have "concat (logs newHashtable) = []"
    by (simp add: newHashtable_def)
  with addLogsToTable_ok [OF newHashtable_wf, of ls] bucket_ok_new
  obtain t where t: "addLogsToTable newHashtable ls = Some t" "ht_wf t" "bucket_ok t"
    "mset (concat (logs t)) = mset ls"
    by auto
  let ?idx = "bucketIndex t plt"
  let ?chain = "logs t ! ?idx"
  let ?P = "isOpenFor plt"
  have c: "chainOfPlate plt t = Some ?chain"
    using t(2) by (rule chainOfPlate_wf)
  have f: "find_open_entry plt t = Some (List.find ?P ?chain)"
    using t(2) by (rule find_open_entry_wf)
  have "filter ?P (concat (logs t)) = filter ?P ?chain"
  proof (rule filter_concat_bucket)
    show "?idx < length (logs t)" using t(2) by (rule bucketIndex_less)
    show "\<forall>k < length (logs t). k \<noteq> ?idx \<longrightarrow> (\<forall>l \<in> set (logs t ! k). \<not> ?P l)"
      using t(3) by (auto simp: bucket_ok_def isOpenFor_def)
  qed
  then have "mset (filter ?P ?chain) = mset (filter ?P (concat (logs t)))"
    by (rule arg_cong [OF sym])
  also have "\<dots> = mset (filter ?P ls)"
    by (simp only: mset_filter t(4))
  finally have ms: "mset (filter ?P ?chain) = mset (filter ?P ls)" .
  have "List.find ?P ?chain = mostRecentOpen plt ls" if "length (filter ?P ls) \<le> 1"
  proof (cases "filter ?P ls")
    case Nil
    with ms have "filter ?P ?chain = []" by simp
    with Nil show ?thesis by (simp add: find_filter mostRecentOpen_def)
  next
    case (Cons x xs)
    with that have "filter ?P ls = [x]" by simp
    moreover from this ms have "mset (filter ?P ?chain) = {#x#}" by (simp only: mset.simps)
    then have "filter ?P ?chain = [x]" by (simp only: mset_single_iff)
    ultimately show ?thesis by (simp add: find_filter mostRecentOpen_def)
  qed
  with t(1) c f show ?thesis by auto
qed

theorem C4_find_open_entry_witness:
  "length (filter (isOpenFor ''AA-00-00'')
      [mkLog ''AA-00-00'' ''ParkA'' 8 9, enterLog ''AA-00-00'' ''ParkA'' 10]) \<le> 1 \<and>
   mostRecentOpen ''AA-00-00'' [mkLog ''AA-00-00'' ''ParkA'' 8 9, enterLog ''AA-00-00'' ''ParkA'' 10]
     = Some (enterLog ''AA-00-00'' ''ParkA'' 10) \<and>
   (\<exists>t. addLogsToTable newHashtable
           [mkLog ''AA-00-00'' ''ParkA'' 8 9, enterLog ''AA-00-00'' ''ParkA'' 10] = Some t \<and>
        find_open_entry ''AA-00-00'' t = Some (Some (enterLog ''AA-00-00'' ''ParkA'' 10)))"
proof -
  have l: "length (filter (isOpenFor ''AA-00-00'')
      [mkLog ''AA-00-00'' ''ParkA'' 8 9, enterLog ''AA-00-00'' ''ParkA'' 10]) \<le> 1"
    by code_simp
  have m: "mostRecentOpen ''AA-00-00''
      [mkLog ''AA-00-00'' ''ParkA'' 8 9, enterLog ''AA-00-00'' ''ParkA'' 10]
     = Some (enterLog ''AA-00-00'' ''ParkA'' 10)"
    by code_simp
  from C4_find_open_entry [of "[mkLog ''AA-00-00'' ''ParkA'' 8 9, enterLog ''AA-00-00'' ''ParkA'' 10]"
      "''AA-00-00''"] l m
  show ?thesis by auto
qed

subsection \<open>Load factor\<close>

lemma ratio_above_threshold:
  fixes n s :: nat
  assumes "0 < s"
  shows "real n / real_of_int (int s) > LOAD_FACTOR_THRESHOLD \<longleftrightarrow> 3 * s < 4 * n"
proof -
  have "real n / real s > 3 / 4 \<longleftrightarrow> 3 * real s < 4 * real n"
    using assms by (simp add: field_simps)
  also have "\<dots> \<longleftrightarrow> real (3 * s) < real (4 * n)"
    by simp
  also have "\<dots> \<longleftrightarrow> 3 * s < 4 * n"
    by (rule of_nat_less_iff)
  finally show ?thesis
    by (simp add: LOAD_FACTOR_THRESHOLD_def)
qed

lemma loadExceeded_iff:
  assumes "0 < size_ht ht" "unat (size_ht ht) < 2147483648"
  shows "loadExceeded ht \<longleftrightarrow> 3 * unat (size_ht ht) < 4 * unat (numElements ht)"
proof -
  have "sint (size_ht ht) = signed_take_bit 31 (uint (size_ht ht))"
    by (simp add: sint_uint)
  also have "\<dots> = uint (size_ht ht)"
  proof (rule signed_take_bit_int_eq_self)
    have e: "(2 :: int) ^ 31 = 2147483648" by simp
    have u: "uint (size_ht ht) = int (unat (size_ht ht))" by (rule uint_nat)
    have "- 2147483648 \<le> uint (size_ht ht)" unfolding u by linarith
    then show "- (2 ^ 31) \<le> uint (size_ht ht)" by (simp only: e)
    have "uint (size_ht ht) < 2147483648" unfolding u using assms(2) by linarith
    then show "uint (size_ht ht) < 2 ^ 31" by (simp only: e)
  qed
  finally have "sint (size_ht ht) = uint (size_ht ht)" .
  then have s: "getSize ht = int (unat (size_ht ht))"
    by (simp only: getSize_def uint_nat)
  have pos: "0 < unat (size_ht ht)"
    using assms(1) by (simp add: word_less_nat_alt)
  show ?thesis
    unfolding loadExceeded_def s by (rule ratio_above_threshold [OF pos])
qed

lemma nonEmpty_update:
  "i < length xs \<Longrightarrow> xs ! i = [] \<Longrightarrow>
   length (filter (\<lambda>c. c \<noteq> []) (xs[i := [x]])) = Suc (length (filter (\<lambda>c. c \<noteq> []) xs))"
proof (induction xs arbitrary: i)
  case Nil
  then show ?case by simp
next
  case (Cons y ys)
  then show ?case by (cases i) auto
qed

lemma addLogsToTable_snoc:
  "addLogsToTable ht (ls @ [lg]) =
     (case addLogsToTable ht ls of None \<Rightarrow> None | Some t \<Rightarrow> addLogToTable t lg)"
  by (induction ls arbitrary: ht) (auto split: option.splits)

lemma addLogToTable_load:
  assumes p: "prime_nat p" "53 \<le> p" "p < 2147483648"
    and wf: "ht_wf t" and n: "unat (numElements t) = k" and s: "unat (size_ht t) \<le> p"
    and inv: "k < unat (size_ht t) + length (filter (\<lambda>c. c \<noteq> []) (logs t))"
    and k: "8 * (k + 1) \<le> 3 * (p - 1)"
  shows "\<exists>t'. addLogToTable t lg = Some t' \<and> ht_wf t' \<and> unat (numElements t') = k + 1 \<and>
      unat (size_ht t') \<le> p \<and>
      k + 1 < unat (size_ht t') + length (filter (\<lambda>c. c \<noteq> []) (logs t')) \<and>
      (logs t ! bucketIndex t (plate lg) \<noteq> [] \<longrightarrow>
         k + 1 < unat (size_ht t') \<and>
         (size_ht t' = size_ht t \<longrightarrow> 4 * (k + 1) \<le> 3 * unat (size_ht t')))"
proof -
  let ?idx = "bucketIndex t (plate lg)"
  let ?ht1 = "t\<lparr>numElements := numElements t + 1\<rparr>"
  let ?s = "unat (size_ht t)"
  have lt: "?idx < length (logs t)" using wf by (rule bucketIndex_less)
  have spos: "0 < ?s" using wf by (simp add: ht_wf_def word_less_nat_alt)
  have "k + 1 < 2147483648" using k p(3) by simp
  then have "unat (numElements t) + unat (1 :: u32) < 2 ^ LENGTH(32)" using n by simp
  then have n1: "unat (numElements t + 1) = k + 1"
    using n by (simp add: unat_add_lem [THEN iffD1])
  show ?thesis
  proof (cases "logs t ! ?idx = []")
    case True
    let ?t' = "?ht1\<lparr>logs := (logs t)[?idx := [lg]]\<rparr>"
    have "addLogToTable t lg = Some ?t'"
      using True by (simp add: addLogToTable_unfold [OF wf])
    moreover have "ht_wf ?t'" using wf by (simp add: ht_wf_def)
    moreover have "length (filter (\<lambda>c. c \<noteq> []) (logs ?t')) =
        Suc (length (filter (\<lambda>c. c \<noteq> []) (logs t)))"
      using nonEmpty_update [OF lt True] by simp
    ultimately show ?thesis using True n1 s inv by simp
  next
    case False
    let ?ht2 = "?ht1\<lparr>logs := (logs t)[?idx := logs t ! ?idx @ [lg]]\<rparr>"
    have wf2: "ht_wf ?ht2" using wf by (simp add: ht_wf_def)
    have ex: "loadExceeded ?ht2 \<longleftrightarrow> 3 * ?s < 4 * (k + 1)"
      using loadExceeded_iff [of ?ht2] wf s p(3) n1 by (simp add: ht_wf_def)
    show ?thesis
    proof (cases "loadExceeded ?ht2")
      case nex: False
      have "addLogToTable t lg = Some ?ht2"
        using False nex by (simp add: addLogToTable_unfold [OF wf])
      moreover from nex ex have "4 * (k + 1) \<le> 3 * ?s" by simp
      moreover from this spos have "k + 1 < ?s" by simp
      ultimately show ?thesis using wf2 n1 s by simp
    next
      case True
      with ex have big: "3 * ?s < 4 * (k + 1)" by simp
      with k have two: "?s * 2 + 1 \<le> p" by simp
      from resizeHashtable_ok [OF wf2] obtain t' where
        r: "resizeHashtable ?ht2 = Some t'" "ht_wf t'"
           "nearestPrime (size_ht t * 2 + 1) = Some (size_ht t')"
           "numElements t' = numElements ?ht2"
        by auto
      have "?s * unat (2 :: u32) < 2 ^ LENGTH(32)" using two p(3) by simp
      then have "unat (size_ht t * 2) = ?s * 2"
        by (simp add: unat_mult_lem [THEN iffD1])
      moreover from this two p(3) have "unat (size_ht t * 2) + unat (1 :: u32) < 2 ^ LENGTH(32)"
        by simp
      then have "unat (size_ht t * 2 + 1) = unat (size_ht t * 2) + 1"
        by (simp add: unat_add_lem [THEN iffD1])
      ultimately have u: "unat (size_ht t * 2 + 1) = ?s * 2 + 1" by simp
      have "odd p" using p(1,2) by (intro prime_nat_odd) simp_all
      moreover have "p < 65531 * 65531" using p(3) by simp
      moreover have "unat (size_ht t * 2 + 1) \<le> p" using u two by simp
      ultimately obtain q where "nearestPrime (size_ht t * 2 + 1) = Some q"
        "size_ht t * 2 + 1 \<le> q" "unat q \<le> p"
        using nearestPrime_value [OF p(1), of "size_ht t * 2 + 1"] by blast
      with r(3) u have s': "?s * 2 + 1 \<le> unat (size_ht t')" "unat (size_ht t') \<le> p"
        by (simp_all add: word_le_nat_alt)
      have "length (filter (\<lambda>c. c \<noteq> []) (logs t)) \<le> ?s"
        using wf length_filter_le [of "\<lambda>c. c \<noteq> []" "logs t"] by (simp add: ht_wf_def)
      with inv s'(1) have lt': "k + 1 < unat (size_ht t')" by simp
      have ne: "size_ht t' \<noteq> size_ht t" using s'(1) by auto
      have "addLogToTable t lg = Some t'"
        using False True r(1) by (simp add: addLogToTable_unfold [OF wf])
      then show ?thesis using r(2,4) n1 s'(2) lt' ne by simp
    qed
  qed
qed

lemma skewedInserts_chain:
  "Option.bind (addLogsToTable newHashtable skewedInserts) (chainOfPlate ''AA-00-00'')
     = Some (replicate 39 (enterLog ''AA-00-00'' ''ParkA'' 8))"
  by code_simp

lemma skewedInserts_load:
  "map_option loadOf
     (addLogsToTable newHashtable (skewedInserts @ [enterLog ''AA-00-00'' ''ParkA'' 9]))
     = Some (92, 107)"
  by code_simp

text \<open>
  C2, as stated: after any sequence of inserts into a table of 53 buckets whose last
  insert took the append path, the element count is at most 0.75 times the bucket
  count. Inserts into empty buckets never check the load: after 39 logs in one chain
  and 52 logs in the other buckets the table holds 91 logs in 53 buckets. The next
  insert appends, resizes once, to 107 buckets, and leaves 92 logs in them: a ratio of
  about 0.86.
\<close>

theorem C2_load_exceeds_after_growing_append:
  "Option.bind (addLogsToTable newHashtable skewedInserts) (chainOfPlate ''AA-00-00'')
     = Some (replicate 39 (enterLog ''AA-00-00'' ''ParkA'' 8))
   \<and> map_option loadOf
        (addLogsToTable newHashtable (skewedInserts @ [enterLog ''AA-00-00'' ''ParkA'' 9]))
     = Some (92, 107)
   \<and> (92 :: real) / 107 > LOAD_FACTOR_THRESHOLD"
proof (intro conjI)
  show "(92 :: real) / 107 > LOAD_FACTOR_THRESHOLD"
    by (simp add: LOAD_FACTOR_THRESHOLD_def)
qed (rule skewedInserts_chain skewedInserts_load)+

lemma addLogsToTable_load:
  assumes p: "prime_nat p" "53 \<le> p" "p < 2147483648"
  shows "8 * length ls \<le> 3 * (p - 1) \<Longrightarrow>
    \<exists>t. addLogsToTable newHashtable ls = Some t \<and> ht_wf t \<and>
        unat (numElements t) = length ls \<and> unat (size_ht t) \<le> p \<and>
        length ls < unat (size_ht t) + length (filter (\<lambda>c. c \<noteq> []) (logs t))"
proof (induction ls rule: rev_induct)
  case Nil
  show ?case
    using p(2) by (simp add: newHashtable_wf) (simp add: newHashtable_def INITIAL_SIZE_def)
next
  case (snoc lg ls)
  from snoc.prems have "8 * length ls \<le> 3 * (p - 1)" by simp
  from snoc.IH [OF this] obtain t where
    t: "addLogsToTable newHashtable ls = Some t" "ht_wf t" "unat (numElements t) = length ls"
       "unat (size_ht t) \<le> p"
       "length ls < unat (size_ht t) + length (filter (\<lambda>c. c \<noteq> []) (logs t))"
    by blast
  from snoc.prems have "8 * (length ls + 1) \<le> 3 * (p - 1)" by simp
  from addLogToTable_load [OF p t(2,3,4,5) this, of lg] t(1)
  show ?case by (auto simp: addLogsToTable_snoc)
qed

lemma load_after_append:
  assumes "prime_nat p" "53 \<le> p" "p < 2147483648" "8 * (length ls + 1) \<le> 3 * (p - 1)"
  shows "\<exists>t t' chain.
      addLogsToTable newHashtable ls = Some t \<and>
      chainOfPlate (plate lg) t = Some chain \<and>
      addLogsToTable newHashtable (ls @ [lg]) = Some t' \<and>
      unat (numElements t') = length ls + 1 \<and>
      (chain \<noteq> [] \<longrightarrow>
         unat (numElements t') < unat (size_ht t') \<and>
         (size_ht t' = size_ht t \<longrightarrow>
            real (unat (numElements t')) / real (unat (size_ht t')) \<le> LOAD_FACTOR_THRESHOLD))"
proof -
  from assms(4) have "8 * length ls \<le> 3 * (p - 1)" by simp
  from addLogsToTable_load [OF assms(1-3) this] obtain t where
    t: "addLogsToTable newHashtable ls = Some t" "ht_wf t" "unat (numElements t) = length ls"
       "unat (size_ht t) \<le> p"
       "length ls < unat (size_ht t) + length (filter (\<lambda>c. c \<noteq> []) (logs t))"
    by blast
  from addLogToTable_load [OF assms(1-3) t(2,3,4,5) assms(4), of lg] obtain t' where
    t': "addLogToTable t lg = Some t'" "ht_wf t'" "unat (numElements t') = length ls + 1"
        "logs t ! bucketIndex t (plate lg) \<noteq> [] \<longrightarrow>
           length ls + 1 < unat (size_ht t') \<and>
           (size_ht t' = size_ht t \<longrightarrow> 4 * (length ls + 1) \<le> 3 * unat (size_ht t'))"
    by blast
  have c: "chainOfPlate (plate lg) t = Some (logs t ! bucketIndex t (plate lg))"
    using t(2) by (rule chainOfPlate_wf)
  have a: "addLogsToTable newHashtable (ls @ [lg]) = Some t'"
    using t(1) t'(1) by (simp add: addLogsToTable_snoc)
  have pos: "0 < unat (size_ht t')"
    using t'(2) by (simp add: ht_wf_def word_less_nat_alt)
  have r: "real (unat (numElements t')) / real (unat (size_ht t')) \<le> LOAD_FACTOR_THRESHOLD"
    if "4 * (length ls + 1) \<le> 3 * unat (size_ht t')"
    using ratio_above_threshold [OF pos, of "unat (numElements t')"] that t'(3)
    by (simp add: not_less [symmetric])
  show ?thesis
    using t(1) c a t'(3,4) r by (intro exI [of _ t] exI [of _ t'] exI [of _ "logs t ! bucketIndex t (plate lg)"]) auto
qed

text \<open>
  C2, amended: after a sequence of inserts into a table of 53 buckets whose last insert
  took the append path, the element count is below the bucket count, and it is at most
  0.75 times the bucket count if that insert did not resize the table. The counters
  are 32-bit words: the statement is for sequences of at most 375000 inserts, and more
  generally of \<open>n\<close> inserts with \<open>8n \<le> 3(p - 1)\<close> for a prime \<open>p\<close> from 53 to below
  \<open>2^31\<close>, so that no counter wraps and every resize finds its prime.
\<close>

theorem C2_load_after_append:
  "length ls + 1 \<le> 375000 \<or>
   prime_nat p \<and> 53 \<le> p \<and> p < 2147483648 \<and> 8 * (length ls + 1) \<le> 3 * (p - 1) \<longrightarrow>
   (\<exists>t t' chain.
      addLogsToTable newHashtable ls = Some t \<and>
      chainOfPlate (plate lg) t = Some chain \<and>
      addLogsToTable newHashtable (ls @ [lg]) = Some t' \<and>
      unat (numElements t') = length ls + 1 \<and>
      (chain \<noteq> [] \<longrightarrow>
         unat (numElements t') < unat (size_ht t') \<and>
         (size_ht t' = size_ht t \<longrightarrow>
            real (unat (numElements t')) / real (unat (size_ht t')) \<le> LOAD_FACTOR_THRESHOLD)))"
proof
  assume "length ls + 1 \<le> 375000 \<or>
    prime_nat p \<and> 53 \<le> p \<and> p < 2147483648 \<and> 8 * (length ls + 1) \<le> 3 * (p - 1)"
  then consider "length ls + 1 \<le> 375000"
    | "prime_nat p" "53 \<le> p" "p < 2147483648" "8 * (length ls + 1) \<le> 3 * (p - 1)"
    by blast
  then show "\<exists>t t' chain.
      addLogsToTable newHashtable ls = Some t \<and>
      chainOfPlate (plate lg) t = Some chain \<and>
      addLogsToTable newHashtable (ls @ [lg]) = Some t' \<and>
      unat (numElements t') = length ls + 1 \<and>
      (chain \<noteq> [] \<longrightarrow>
         unat (numElements t') < unat (size_ht t') \<and>
         (size_ht t' = size_ht t \<longrightarrow>
            real (unat (numElements t')) / real (unat (size_ht t')) \<le> LOAD_FACTOR_THRESHOLD))"
  proof cases
    case 1
    then have "8 * (length ls + 1) \<le> 3 * (1000003 - 1 :: nat)" by simp
    then show ?thesis
      by (intro load_after_append [OF prime_nat_1000003]) simp_all
  next
    case 2
    then show ?thesis by (rule load_after_append)
  qed
qed

theorem C2_load_after_append_witness:
  "length skewedInserts + 1 \<le> 375000 \<and>
   (\<exists>t t'. addLogsToTable newHashtable skewedInserts = Some t \<and>
      chainOfPlate ''AA-00-00'' t = Some (replicate 39 (enterLog ''AA-00-00'' ''ParkA'' 8)) \<and>
      addLogsToTable newHashtable (skewedInserts @ [enterLog ''AA-00-00'' ''ParkA'' 9]) = Some t' \<and>
      loadOf t' = (92, 107) \<and>
      unat (numElements t') < unat (size_ht t'))"
proof -
  let ?b = "enterLog ''AA-00-00'' ''ParkA'' 9"
  have len: "length skewedInserts = 91"
    by (simp add: skewedInserts_def spreadPlates_def)
  then have h: "length skewedInserts + 1 \<le> 375000"
    by simp
  have pl: "plate ?b = ''AA-00-00''"
    by (simp add: enterLog_def newLog_def)
  from C2_load_after_append [of skewedInserts 0 ?b] h obtain t t' chain where
    r: "addLogsToTable newHashtable skewedInserts = Some t"
       "chainOfPlate (plate ?b) t = Some chain"
       "addLogsToTable newHashtable (skewedInserts @ [?b]) = Some t'"
       "chain \<noteq> [] \<longrightarrow> unat (numElements t') < unat (size_ht t')"
    by blast
  from skewedInserts_chain r(1,2) have c: "chain = replicate 39 (enterLog ''AA-00-00'' ''ParkA'' 8)"
    by (simp only: pl Option.bind.simps option.inject)
  then have "chain \<noteq> []" by simp
  with r(4) have lt: "unat (numElements t') < unat (size_ht t')" by simp
  from skewedInserts_load r(3) have "loadOf t' = (92, 107)"
    by (simp only: option.map option.inject)
  with r(1,2,3) c lt pl h show ?thesis
    by (intro conjI exI [of _ t] exI [of _ t']) simp_all
qed

end
